theory Spec2Isabelle
  imports Main "HOL-Library.AList" "HOL-Library.Char_ord" "HOL-Library.List_Lexorder"
    "HOL-Library.Multiset"
begin

section \<open>JavaScript values handled by the tile manager\<close>

text \<open>
  The tile manager (\<^verbatim>\<open>src/unnamed/part_000\<close>) wraps the host's
  \<^verbatim>\<open>drawTemplateOnTile\<close> with a cache keyed by tile, templates and tile content, and
  with a pause switch that replays frozen tiles. The embedding follows the module's own
  layout: first the values it reads (tile blobs, tile coordinates, template objects),
  then the string helpers of the language it relies on, then its functions in source
  order.

  A tile payload is a \<^verbatim>\<open>Blob\<close> or absent (\<^verbatim>\<open>null\<close>/\<^verbatim>\<open>undefined\<close>, which the
  module never tells apart: it only tests truthiness). Of a blob the module reads
  \<^verbatim>\<open>size\<close> and \<^verbatim>\<open>type\<close>; the third field stands for the pixel content, which the
  module never inspects but which tells two payloads of equal size and type apart.
\<close>

datatype blob = Blob (blob_size: nat) (blob_type: string) (blob_content: nat)

type_synonym payload = "blob option"

text \<open>
  Tile coordinates are documented as \<^verbatim>\<open>Array<number>|string\<close>. The array form is a
  pair of integers (only elements 0 and 1 are read).
\<close>

datatype tile_coords = CoordsArray int int | CoordsString string

text \<open>
  A template object, as far as \<^verbatim>\<open>generateCacheKey\<close> reads it. Each property may be
  missing (\<open>None\<close>).
\<close>

record template =
  name :: "string option"
  sortID :: "int option"
  enabled :: "bool option"

section \<open>String helpers of the language\<close>

text \<open>\<^verbatim>\<open>Number.prototype.toString\<close> on integers: decimal digits, a leading minus sign.\<close>

definition digit_char :: "nat \<Rightarrow> char" where
  "digit_char d = char_of (48 + d)"

fun nat_toString :: "nat \<Rightarrow> string" where
  "nat_toString n =
     (if n < 10 then [digit_char n]
      else nat_toString (n div 10) @ [digit_char (n mod 10)])"

declare nat_toString.simps [simp del]

definition int_toString :: "int \<Rightarrow> string" where
  "int_toString i = (if i < 0 then CHR ''-'' # nat_toString (nat (- i)) else nat_toString (nat i))"

text \<open>\<^verbatim>\<open>String.prototype.padStart(n, c)\<close> with a one-character filler.\<close>

definition padStart :: "nat \<Rightarrow> char \<Rightarrow> string \<Rightarrow> string" where
  "padStart n c s = replicate (n - length s) c @ s"

text \<open>\<^verbatim>\<open>Array.prototype.join(sep)\<close> on an array of strings.\<close>

fun join :: "string \<Rightarrow> string list \<Rightarrow> string" where
  "join sep [] = []"
| "join sep [s] = s"
| "join sep (s # t # ss) = s @ sep @ join sep (t # ss)"

section \<open>Cache keys\<close>

text \<open>
  The coordinate part of every key. The source writes this expression four times (in
  \<^verbatim>\<open>generateCacheKey\<close> as \<^verbatim>\<open>coordsKey\<close>, and as \<^verbatim>\<open>tileKey\<close> in the two wrappers and in
  the paused handler), each time as
  \<^verbatim>\<open>Array.isArray(c) ? c[0].toString().padStart(4,'0') + ',' + c[1].toString().padStart(4,'0') : c.toString()\<close>.
\<close>

definition tileKey :: "tile_coords \<Rightarrow> string" where
  "tileKey tileCoords =
     (case tileCoords of
        CoordsArray x y \<Rightarrow>
          padStart 4 (CHR ''0'') (int_toString x) @ '','' @ padStart 4 (CHR ''0'') (int_toString y)
      | CoordsString s \<Rightarrow> s)"

text \<open>
  \<^verbatim>\<open>template.enabled !== false\<close>, and the label
  \<^verbatim>\<open>`${template.name || 'unnamed'}_${template.sortID || 0}`\<close>: a missing or empty name
  reads \<^verbatim>\<open>unnamed\<close>, a missing sort identifier reads 0.
\<close>

definition is_enabled :: "template \<Rightarrow> bool" where
  "is_enabled t = (enabled t \<noteq> Some False)"

definition effective_name :: "template \<Rightarrow> string" where
  "effective_name t = (case name t of None \<Rightarrow> ''unnamed'' | Some n \<Rightarrow> if n = [] then ''unnamed'' else n)"

definition effective_sortID :: "template \<Rightarrow> int" where
  "effective_sortID t = (case sortID t of None \<Rightarrow> 0 | Some i \<Rightarrow> i)"

definition template_label :: "template \<Rightarrow> string" where
  "template_label t = effective_name t @ ''_'' @ int_toString (effective_sortID t)"

text \<open>
  The template part: the labels of the enabled templates, sorted (the default sort of
  the language orders strings by code unit, here the order of \<^typ>\<open>char list\<close>) and joined
  by a bar. An empty array gives the empty string.
\<close>

definition templateHash :: "template list \<Rightarrow> string" where
  "templateHash templateArray =
     (if templateArray \<noteq> [] then join ''|'' (sort (map template_label (filter is_enabled templateArray)))
      else [])"

text \<open>The content part: size and type of the blob, or \<^verbatim>\<open>nodata\<close> for no blob or size 0.\<close>

definition contentHash :: "payload \<Rightarrow> string" where
  "contentHash tileBlob =
     (case tileBlob of
        None \<Rightarrow> ''nodata''
      | Some b \<Rightarrow>
          if blob_size b = 0 then ''nodata''
          else nat_toString (blob_size b) @ ''_'' @ blob_type b)"

definition generateCacheKey :: "tile_coords \<Rightarrow> template list \<Rightarrow> payload \<Rightarrow> string" where
  "generateCacheKey tileCoords templateArray tileBlob =
     tileKey tileCoords @ ''_'' @ templateHash templateArray @ ''_'' @ contentHash tileBlob"

section \<open>Module state\<close>

text \<open>
  The two \<^verbatim>\<open>Map\<close> objects of the module keep their keys unique and in order of first
  insertion: \<^verbatim>\<open>set\<close> on a present key replaces the value in place, on an absent key
  it appends; \<^verbatim>\<open>delete\<close> removes the entry. They are association lists with
  \<^const>\<open>AList.update\<close> for \<^verbatim>\<open>set\<close>, \<^const>\<open>AList.delete\<close> for \<^verbatim>\<open>delete\<close> and
  \<^const>\<open>map_of\<close> for \<^verbatim>\<open>has\<close>/\<^verbatim>\<open>get\<close>; \<^verbatim>\<open>size\<close> is the length.

  What the module writes to the settings stores is kept as a log of the writes it
  issues, oldest first. \<^verbatim>\<open>localStorage\<close> is always written; the TamperMonkey store is
  written by \<^verbatim>\<open>settingsManager.js\<close> when the host provides \<^verbatim>\<open>GM_setValue\<close>. The stores
  themselves are external: whether a store accepts a write (the module catches and logs a
  failure) is not part of the model, and what initialisation reads back is a parameter.
\<close>

datatype stored = StatsJSON nat nat | BoolJSON bool | VersionString string

datatype backend = TamperMonkey | LocalStorage

text \<open>
  Which function currently sits in \<^verbatim>\<open>templateManager.drawTemplateOnTile\<close>: the host's
  own method (before initialisation), the wrapper built by
  \<^verbatim>\<open>initializeTileRefreshPause\<close>, the wrapper built by \<^verbatim>\<open>applyTileRefreshPause\<close> when
  running, or its paused replacement.
\<close>

datatype handler = HostMethod | InitialWrapper | ResumedWrapper | PausedHandler

record tile_manager =
  tileRefreshPaused :: bool
  originalCaptured :: bool
  installed :: handler
  frozenTileCache :: "(string \<times> payload) list"
  isCapturingState :: bool
  smartTileCacheEnabled :: bool
  smartTileCache :: "(string \<times> payload) list"
  cacheAccessOrder :: "(string \<times> int) list"
  cacheHits :: nat
  cacheMisses :: nat
  gmAvailable :: bool
  settingsWrites :: "(backend \<times> string \<times> stored) list"
  compositeCalls :: "(payload \<times> tile_coords) list"

text \<open>
  \<^verbatim>\<open>originalCaptured\<close> says whether \<^verbatim>\<open>originalDrawTemplateOnTile\<close> is non-null;
  \<^verbatim>\<open>compositeCalls\<close> logs every invocation of that original (the external compositing
  operation) with its arguments. \<^verbatim>\<open>maxCacheSize\<close> and \<^verbatim>\<open>cacheVersion\<close> are never
  reassigned and are constants here.
\<close>

definition maxCacheSize :: nat where
  "maxCacheSize = 500"

definition cacheVersion :: string where
  "cacheVersion = ''1.0''"

definition CACHE_STATS_KEY :: string where
  "CACHE_STATS_KEY = ''bmSmartTileCacheStats''"

definition CACHE_VERSION_KEY :: string where
  "CACHE_VERSION_KEY = ''bmSmartTileCacheVersion''"

text \<open>The module's variables as declared at load time (lines 10 to 23).\<close>

definition module_state :: "bool \<Rightarrow> tile_manager" where
  "module_state gm =
     \<lparr>tileRefreshPaused = False, originalCaptured = False, installed = HostMethod,
      frozenTileCache = [], isCapturingState = False, smartTileCacheEnabled = True,
      smartTileCache = [], cacheAccessOrder = [], cacheHits = 0, cacheMisses = 0,
      gmAvailable = gm, settingsWrites = [], compositeCalls = []\<rparr>"

section \<open>The LRU store\<close>

text \<open>\<^verbatim>\<open>Date.now()\<close> is passed in as \<open>now\<close> wherever the source reads the clock.\<close>

definition updateCacheAccess :: "string \<Rightarrow> int \<Rightarrow> tile_manager \<Rightarrow> tile_manager" where
  "updateCacheAccess key now st =
     st\<lparr>cacheAccessOrder := AList.update key now (cacheAccessOrder st)\<rparr>"

text \<open>
  One turn of the loop of \<^verbatim>\<open>evictLRUEntries\<close>: the key leaves the store and the ledger.
\<close>

definition evict_entry :: "string \<times> int \<Rightarrow> tile_manager \<Rightarrow> tile_manager" where
  "evict_entry e st =
     st\<lparr>smartTileCache := AList.delete (fst e) (smartTileCache st),
        cacheAccessOrder := AList.delete (fst e) (cacheAccessOrder st)\<rparr>"

text \<open>
  The comparator \<^verbatim>\<open>([,a], [,b]) => a - b\<close> orders the ledger's entries by ascending
  time; the sort of the language is stable, as \<^const>\<open>sort_key\<close> is. \<^verbatim>\<open>slice(0, n)\<close>
  is \<^const>\<open>take\<close>.
\<close>

definition evictLRUEntries :: "tile_manager \<Rightarrow> tile_manager" where
  "evictLRUEntries st =
     (if length (smartTileCache st) \<le> maxCacheSize then st
      else
        let sortedEntries = sort_key snd (cacheAccessOrder st);
            entriesToRemove = take (length (smartTileCache st) - maxCacheSize + 10) sortedEntries
        in fold evict_entry entriesToRemove st)"

definition saveCacheStatistics :: "tile_manager \<Rightarrow> tile_manager" where
  "saveCacheStatistics st =
     st\<lparr>settingsWrites := settingsWrites st @
          [(LocalStorage, CACHE_STATS_KEY, StatsJSON (cacheHits st) (cacheMisses st))]\<rparr>"

definition storeInSmartCache :: "string \<Rightarrow> payload \<Rightarrow> int \<Rightarrow> tile_manager \<Rightarrow> tile_manager" where
  "storeInSmartCache cacheKey processedTile now st =
     (if \<not> smartTileCacheEnabled st then st
      else
        let st1 = st\<lparr>smartTileCache := AList.update cacheKey processedTile (smartTileCache st)\<rparr>;
            st2 = updateCacheAccess cacheKey now st1;
            st3 = evictLRUEntries st2
        in if (cacheHits st3 + cacheMisses st3) mod 50 = 0 then saveCacheStatistics st3 else st3)"

text \<open>
  \<^verbatim>\<open>getFromSmartCache\<close> returns the cached value, or \<^verbatim>\<open>null\<close> (here \<open>None\<close>) when the
  cache is off or the key is absent.
\<close>

definition getFromSmartCache :: "string \<Rightarrow> int \<Rightarrow> tile_manager \<Rightarrow> payload \<times> tile_manager" where
  "getFromSmartCache cacheKey now st =
     (if \<not> smartTileCacheEnabled st then (None, st)
      else
        case map_of (smartTileCache st) cacheKey of
          Some v \<Rightarrow>
            let st1 = updateCacheAccess cacheKey now st
            in (v, st1\<lparr>cacheHits := cacheHits st1 + 1\<rparr>)
        | None \<Rightarrow> (None, st\<lparr>cacheMisses := cacheMisses st + 1\<rparr>))"

definition clearSmartTileCache :: "tile_manager \<Rightarrow> tile_manager" where
  "clearSmartTileCache st =
     saveCacheStatistics
       (st\<lparr>smartTileCache := [], cacheAccessOrder := [], cacheHits := 0, cacheMisses := 0\<rparr>)"

text \<open>
  \<^verbatim>\<open>saveSmartTileCacheEnabled\<close> and \<^verbatim>\<open>saveTileRefreshPaused\<close> of
  \<^verbatim>\<open>settingsManager.js\<close>: the value goes to the TamperMonkey store when there is one and
  to \<^verbatim>\<open>localStorage\<close>. Both then schedule \<^verbatim>\<open>invalidateCacheForSettingsChange\<close> through a
  dynamic import; that call runs later, as a step of its own.
\<close>

definition save_setting :: "string \<Rightarrow> bool \<Rightarrow> tile_manager \<Rightarrow> tile_manager" where
  "save_setting key b st =
     st\<lparr>settingsWrites := settingsWrites st @
          (if gmAvailable st then [(TamperMonkey, key, BoolJSON b)] else []) @
          [(LocalStorage, key, BoolJSON b)]\<rparr>"

definition saveSmartTileCacheEnabled :: "bool \<Rightarrow> tile_manager \<Rightarrow> tile_manager" where
  "saveSmartTileCacheEnabled b st = save_setting ''bmSmartTileCache'' b st"

definition saveTileRefreshPaused :: "bool \<Rightarrow> tile_manager \<Rightarrow> tile_manager" where
  "saveTileRefreshPaused b st = save_setting ''bmTileRefreshPaused'' b st"

definition toggleSmartTileCache :: "tile_manager \<Rightarrow> bool \<times> tile_manager" where
  "toggleSmartTileCache st =
     (let st1 = st\<lparr>smartTileCacheEnabled := \<not> smartTileCacheEnabled st\<rparr>;
          st2 = saveSmartTileCacheEnabled (smartTileCacheEnabled st1) st1;
          st3 = (if \<not> smartTileCacheEnabled st2 then clearSmartTileCache st2 else st2)
      in (smartTileCacheEnabled st3, st3))"

definition invalidateCacheForSettingsChange :: "tile_manager \<Rightarrow> tile_manager" where
  "invalidateCacheForSettingsChange st =
     (if smartTileCacheEnabled st \<and> length (smartTileCache st) > 0 then clearSmartTileCache st
      else st)"

section \<open>Compositing requests\<close>

text \<open>
  The external compositing operation (\<^verbatim>\<open>originalDrawTemplateOnTile\<close>) is asynchronous and
  opaque. A request reaches it at most once and is suspended at that one \<^verbatim>\<open>await\<close>;
  what the operation answers is a parameter of the model: \<open>Inr result\<close> when its promise
  resolves, \<open>Inl err\<close> when it rejects.

  Both wrappers (lines 261 to 294 and 329 to 362) run the same two halves around the
  \<^verbatim>\<open>await\<close>. They differ only in the condition under which the cache is probed,
  which is the parameter \<open>probe\<close> of the first half.
\<close>

datatype progress = Returned payload | Awaiting string

definition wrapper_begin ::
  "bool \<Rightarrow> template list \<Rightarrow> payload \<Rightarrow> tile_coords \<Rightarrow> int \<Rightarrow> tile_manager \<Rightarrow> progress \<times> tile_manager" where
  "wrapper_begin probe templatesArray tileBlob tileCoords now st =
     (let cacheKey = generateCacheKey tileCoords templatesArray tileBlob;
          (cachedResult, st1) = (if probe then getFromSmartCache cacheKey now st else (None, st))
      in case cachedResult of
           Some b \<Rightarrow> (Returned (Some b), st1)
         | None \<Rightarrow>
             (Awaiting cacheKey, st1\<lparr>compositeCalls := compositeCalls st1 @ [(tileBlob, tileCoords)]\<rparr>))"

text \<open>
  After the \<^verbatim>\<open>await\<close>: the result goes to the LRU store under the cache key and to the
  frozen store under the tile key; a frozen store of more than 100 entries loses its
  first key (\<^verbatim>\<open>frozenTileCache.keys().next().value\<close>).
\<close>

definition store_result :: "string \<Rightarrow> tile_coords \<Rightarrow> payload \<Rightarrow> int \<Rightarrow> tile_manager \<Rightarrow> tile_manager" where
  "store_result cacheKey tileCoords result now st =
     (if \<not> tileRefreshPaused st \<and> \<not> isCapturingState st \<and> smartTileCacheEnabled st then
        let st1 = storeInSmartCache cacheKey result now st;
            st2 = st1\<lparr>frozenTileCache := AList.update (tileKey tileCoords) result (frozenTileCache st1)\<rparr>
        in if length (frozenTileCache st2) > 100 then
             (case frozenTileCache st2 of
                [] \<Rightarrow> st2
              | firstEntry # _ \<Rightarrow>
                  st2\<lparr>frozenTileCache := AList.delete (fst firstEntry) (frozenTileCache st2)\<rparr>)
           else st2
      else st)"

definition wrapper_resume ::
  "string \<Rightarrow> tile_coords \<Rightarrow> string + payload \<Rightarrow> int \<Rightarrow> tile_manager \<Rightarrow> (string + payload) \<times> tile_manager" where
  "wrapper_resume cacheKey tileCoords outcome now st =
     (case outcome of
        Inl err \<Rightarrow> (Inl err, st)
      | Inr result \<Rightarrow> (Inr result, store_result cacheKey tileCoords result now st))"

text \<open>A whole request served by a wrapper, with nothing else running in between.\<close>

definition run_wrapper ::
  "bool \<Rightarrow> string + payload \<Rightarrow> template list \<Rightarrow> payload \<Rightarrow> tile_coords \<Rightarrow> int \<Rightarrow> int \<Rightarrow> tile_manager
    \<Rightarrow> (string + payload) \<times> tile_manager" where
  "run_wrapper probe outcome templatesArray tileBlob tileCoords t1 t2 st =
     (case wrapper_begin probe templatesArray tileBlob tileCoords t1 st of
        (Returned r, st1) \<Rightarrow> (Inr r, st1)
      | (Awaiting cacheKey, st1) \<Rightarrow> wrapper_resume cacheKey tileCoords outcome t2 st1)"

definition initial_probe :: "tile_manager \<Rightarrow> bool" where
  "initial_probe st = (\<not> tileRefreshPaused st \<and> smartTileCacheEnabled st)"

definition resumed_probe :: "tile_manager \<Rightarrow> bool" where
  "resumed_probe st = smartTileCacheEnabled st"

text \<open>The paused replacement (lines 310 to 325): synchronous, reads the frozen store only.\<close>

definition paused_handler :: "payload \<Rightarrow> tile_coords \<Rightarrow> tile_manager \<Rightarrow> payload" where
  "paused_handler tileBlob tileCoords st =
     (case map_of (frozenTileCache st) (tileKey tileCoords) of
        Some frozen \<Rightarrow> frozen
      | None \<Rightarrow> tileBlob)"

text \<open>
  A call of \<^verbatim>\<open>templateManager.drawTemplateOnTile\<close>: whichever function is installed
  answers it.
\<close>

definition drawTemplateOnTile ::
  "string + payload \<Rightarrow> template list \<Rightarrow> payload \<Rightarrow> tile_coords \<Rightarrow> int \<Rightarrow> int \<Rightarrow> tile_manager
    \<Rightarrow> (string + payload) \<times> tile_manager" where
  "drawTemplateOnTile outcome templatesArray tileBlob tileCoords t1 t2 st =
     (case installed st of
        HostMethod \<Rightarrow> (outcome, st\<lparr>compositeCalls := compositeCalls st @ [(tileBlob, tileCoords)]\<rparr>)
      | InitialWrapper \<Rightarrow> run_wrapper (initial_probe st) outcome templatesArray tileBlob tileCoords t1 t2 st
      | ResumedWrapper \<Rightarrow> run_wrapper (resumed_probe st) outcome templatesArray tileBlob tileCoords t1 t2 st
      | PausedHandler \<Rightarrow> (Inr (paused_handler tileBlob tileCoords st), st))"

section \<open>Pause control and initialisation\<close>

definition applyTileRefreshPause :: "tile_manager \<Rightarrow> tile_manager" where
  "applyTileRefreshPause st =
     (if tileRefreshPaused st then st\<lparr>installed := PausedHandler\<rparr>
      else if originalCaptured st then st\<lparr>installed := ResumedWrapper\<rparr>
      else st)"

definition toggleTileRefreshPause :: "tile_manager \<Rightarrow> bool \<times> tile_manager" where
  "toggleTileRefreshPause st =
     (let st1 = st\<lparr>tileRefreshPaused := \<not> tileRefreshPaused st\<rparr>;
          st2 = saveTileRefreshPaused (tileRefreshPaused st1) st1;
          st3 = applyTileRefreshPause st2
      in (tileRefreshPaused st3, st3))"

definition forceRefreshSingleTile ::
  "string + payload \<Rightarrow> payload \<Rightarrow> tile_coords \<Rightarrow> tile_manager \<Rightarrow> (string + payload) \<times> tile_manager" where
  "forceRefreshSingleTile outcome tileBlob tileCoords st =
     (if originalCaptured st then
        (outcome, st\<lparr>compositeCalls := compositeCalls st @ [(tileBlob, tileCoords)]\<rparr>)
      else (Inr tileBlob, st))"

definition clearFrozenTileCache :: "tile_manager \<Rightarrow> tile_manager" where
  "clearFrozenTileCache st = st\<lparr>frozenTileCache := []\<rparr>"

text \<open>
  What initialisation reads from the settings stores is a parameter: the saved
  cache-enabled flag, the stored version string (if any), the stored statistics and the
  saved pause flag. Statistics that fail to parse throw inside the \<^verbatim>\<open>try\<close> block, whose
  handler clears the cache.
\<close>

datatype stats_item = NoStats | StatsParsed nat nat | StatsMalformed

definition initializeSmartTileCache :: "bool \<Rightarrow> string option \<Rightarrow> stats_item \<Rightarrow> tile_manager \<Rightarrow> tile_manager" where
  "initializeSmartTileCache savedEnabled storedVersion storedStats st =
     (let st1 = st\<lparr>smartTileCacheEnabled := savedEnabled\<rparr>;
          st2 = (if storedVersion \<noteq> Some cacheVersion then
                   let st' = clearSmartTileCache st1
                   in st'\<lparr>settingsWrites := settingsWrites st' @
                          [(LocalStorage, CACHE_VERSION_KEY, VersionString cacheVersion)]\<rparr>
                 else st1)
      in case storedStats of
           NoStats \<Rightarrow> st2\<lparr>cacheHits := 0, cacheMisses := 0\<rparr>
         | StatsParsed h m \<Rightarrow> st2\<lparr>cacheHits := h, cacheMisses := m\<rparr>
         | StatsMalformed \<Rightarrow> clearSmartTileCache st2)"

definition initializeTileRefreshPause ::
  "bool \<Rightarrow> string option \<Rightarrow> stats_item \<Rightarrow> bool \<Rightarrow> tile_manager \<Rightarrow> tile_manager" where
  "initializeTileRefreshPause savedEnabled storedVersion storedStats savedPaused st =
     (let st1 = initializeSmartTileCache savedEnabled storedVersion storedStats st;
          st2 = st1\<lparr>tileRefreshPaused := savedPaused\<rparr>;
          st3 = (if \<not> originalCaptured st2 then st2\<lparr>originalCaptured := True, installed := InitialWrapper\<rparr>
                 else st2)
      in applyTileRefreshPause st3)"

section \<open>Runs of the module\<close>

text \<open>
  Sequences of operations on the LRU store alone, and sequences of \<^verbatim>\<open>put\<close>s; each
  \<^verbatim>\<open>put\<close> carries its key, its value and the clock reading.
\<close>

datatype lru_op = Put string payload int | Get string int | Evict | Clear

fun lru_step :: "lru_op \<Rightarrow> tile_manager \<Rightarrow> tile_manager" where
  "lru_step (Put key v now) st = storeInSmartCache key v now st"
| "lru_step (Get key now) st = snd (getFromSmartCache key now st)"
| "lru_step Evict st = evictLRUEntries st"
| "lru_step Clear st = clearSmartTileCache st"

definition put_step :: "string \<times> payload \<times> int \<Rightarrow> tile_manager \<Rightarrow> tile_manager" where
  "put_step p st = storeInSmartCache (fst p) (fst (snd p)) (snd (snd p)) st"

definition puts :: "(string \<times> payload \<times> int) list \<Rightarrow> tile_manager \<Rightarrow> tile_manager" where
  "puts ps st = fold put_step ps st"

text \<open>
  The ledger matches the store when both list the same keys, in the same order, each
  once.
\<close>

definition ledger_matches :: "tile_manager \<Rightarrow> bool" where
  "ledger_matches st =
     (map fst (cacheAccessOrder st) = map fst (smartTileCache st) \<and>
      distinct (map fst (smartTileCache st)))"

text \<open>
  Everything that can happen to the module once \<^verbatim>\<open>initializeTileRefreshPause\<close> has run.
  Requests for different tiles may be in flight together, so a request is two events:
  \<open>Begin\<close> runs the installed function up to its \<^verbatim>\<open>await\<close> (or to its return), and
  \<open>Settle\<close> resumes a suspended wrapper with what the compositing operation answered.
  A \<open>Settle\<close> carries the cache key and coordinates its request captured; the runs
  allow any, which includes every run the module can make.
\<close>

datatype event =
    Initialize bool "string option" stats_item bool
  | Begin "template list" payload tile_coords int
  | Settle string tile_coords "string + payload" int
  | TogglePause
  | ToggleCache
  | SettingsChanged
  | ForceRefresh "string + payload" payload tile_coords
  | ClearFrozen

definition request_begin :: "template list \<Rightarrow> payload \<Rightarrow> tile_coords \<Rightarrow> int \<Rightarrow> tile_manager \<Rightarrow> tile_manager" where
  "request_begin templatesArray tileBlob tileCoords now st =
     (case installed st of
        HostMethod \<Rightarrow> st\<lparr>compositeCalls := compositeCalls st @ [(tileBlob, tileCoords)]\<rparr>
      | InitialWrapper \<Rightarrow> snd (wrapper_begin (initial_probe st) templatesArray tileBlob tileCoords now st)
      | ResumedWrapper \<Rightarrow> snd (wrapper_begin (resumed_probe st) templatesArray tileBlob tileCoords now st)
      | PausedHandler \<Rightarrow> st)"

fun step :: "event \<Rightarrow> tile_manager \<Rightarrow> tile_manager" where
  "step (Initialize savedEnabled storedVersion storedStats savedPaused) st =
     initializeTileRefreshPause savedEnabled storedVersion storedStats savedPaused st"
| "step (Begin templatesArray tileBlob tileCoords now) st =
     request_begin templatesArray tileBlob tileCoords now st"
| "step (Settle cacheKey tileCoords outcome now) st =
     snd (wrapper_resume cacheKey tileCoords outcome now st)"
| "step TogglePause st = snd (toggleTileRefreshPause st)"
| "step ToggleCache st = snd (toggleSmartTileCache st)"
| "step SettingsChanged st = invalidateCacheForSettingsChange st"
| "step (ForceRefresh outcome tileBlob tileCoords) st =
     snd (forceRefreshSingleTile outcome tileBlob tileCoords st)"
| "step ClearFrozen st = clearFrozenTileCache st"

text \<open>
  \<^verbatim>\<open>initializeTileRefreshPause\<close> is the module's entry point: it captures the host's
  compositing function and installs the wrappers. \<open>started\<close> is the module right after
  that first call on the freshly loaded module, and \<open>run\<close> applies a sequence of later
  events, which may include further initialisations.
\<close>

definition started :: "bool \<Rightarrow> bool \<Rightarrow> string option \<Rightarrow> stats_item \<Rightarrow> bool \<Rightarrow> tile_manager" where
  "started gm savedEnabled storedVersion storedStats savedPaused =
     initializeTileRefreshPause savedEnabled storedVersion storedStats savedPaused (module_state gm)"

definition run :: "event list \<Rightarrow> tile_manager \<Rightarrow> tile_manager" where
  "run evs st = fold step evs st"

text \<open>
  A \<^verbatim>\<open>put\<close> as the store entry it writes and as the ledger entry it writes. The
  victims of the eviction that the \<open>maxCacheSize + 1\<close>-th \<^verbatim>\<open>put\<close> of distinct keys
  into an empty store triggers: the first 11 ledger entries in ascending order of access
  time, entries of equal time in order of insertion.
\<close>

definition entry_of :: "string \<times> payload \<times> int \<Rightarrow> string \<times> payload" where
  "entry_of p = (fst p, fst (snd p))"

definition access_of :: "string \<times> payload \<times> int \<Rightarrow> string \<times> int" where
  "access_of p = (fst p, snd (snd p))"

definition lru_victims :: "(string \<times> payload \<times> int) list \<Rightarrow> string list" where
  "lru_victims ps = map fst (take 11 (sort_key snd (map access_of (take (maxCacheSize + 1) ps))))"

section \<open>States of the module and scenarios\<close>

text \<open>
  What holds of the module in every state it reaches after initialisation: the ledger
  matches the store, the LRU store and the frozen store are within their capacities, the
  frozen store lists each key once, the original compositing function has been captured,
  the capturing flag (never set by the module) is off, and the installed function is the
  paused handler exactly when the pause flag is set.
\<close>

definition well_formed :: "tile_manager \<Rightarrow> bool" where
  "well_formed st =
     (ledger_matches st \<and> length (smartTileCache st) \<le> maxCacheSize \<and>
      length (frozenTileCache st) \<le> 100 \<and> distinct (map fst (frozenTileCache st)) \<and>
      originalCaptured st \<and> \<not> isCapturingState st \<and>
      installed st = (if tileRefreshPaused st then PausedHandler else ResumedWrapper))"

text \<open>
  Concrete states used to exercise the theorems: a frozen store filled to its capacity;
  a module started with empty settings stores; the same after one request for tile
  (12, 7) was composited and stored (\<open>warm_state\<close>), then paused
  (\<open>paused_scenario\<close>), or then asked 48 more times for the same tile
  (\<open>fifty_scenario\<close>), whose next request is the 50th access; that 50th access as a
  request for another tile that is still awaiting its composite (\<open>first_in_flight\<close>)
  while a request for a third tile begins, after which both settle
  (\<open>two_in_flight\<close>); and a module started with the cache switched off.
\<close>

definition full_frozen :: tile_manager where
  "full_frozen = (module_state False)
     \<lparr>originalCaptured := True, installed := ResumedWrapper,
      frozenTileCache := map (\<lambda>i. (replicate (Suc i) CHR ''k'', None)) [0..<100]\<rparr>"

definition fresh_start :: tile_manager where
  "fresh_start = started False True (Some ''1.0'') NoStats False"

definition tile_A :: payload where
  "tile_A = Some (Blob 100 ''image/png'' 7)"

definition composite_A :: payload where
  "composite_A = Some (Blob 120 ''image/png'' 8)"

definition warm_state :: tile_manager where
  "warm_state =
     run [Begin [] tile_A (CoordsArray 12 7) 1,
          Settle (generateCacheKey (CoordsArray 12 7) [] tile_A) (CoordsArray 12 7) (Inr composite_A) 2]
       fresh_start"

definition paused_scenario :: tile_manager where
  "paused_scenario =
     run [Begin [] (Some (Blob 100 ''image/png'' 1)) (CoordsArray 12 7) 10,
          Settle (generateCacheKey (CoordsArray 12 7) [] (Some (Blob 100 ''image/png'' 1))) (CoordsArray 12 7)
            (Inr (Some (Blob 120 ''image/png'' 2))) 11,
          TogglePause]
       (started False True (Some ''1.0'') NoStats False)"

definition fifty_scenario :: tile_manager where
  "fifty_scenario =
     run (Begin [] tile_A (CoordsArray 12 7) 1
          # Settle (generateCacheKey (CoordsArray 12 7) [] tile_A) (CoordsArray 12 7) (Inr composite_A) 2
          # replicate 48 (Begin [] tile_A (CoordsArray 12 7) 3))
       fresh_start"

definition fiftieth_access :: "(string + payload) \<times> tile_manager" where
  "fiftieth_access = drawTemplateOnTile (Inr None) [] tile_A (CoordsArray 12 7) 4 5 fifty_scenario"

definition first_in_flight :: tile_manager where
  "first_in_flight = run [Begin [] tile_A (CoordsArray 1 1) 4] fifty_scenario"

definition two_in_flight :: tile_manager where
  "two_in_flight =
     run [Begin [] tile_A (CoordsArray 2 2) 5,
          Settle (generateCacheKey (CoordsArray 1 1) [] tile_A) (CoordsArray 1 1) (Inr composite_A) 6,
          Settle (generateCacheKey (CoordsArray 2 2) [] tile_A) (CoordsArray 2 2) (Inr composite_A) 7]
       first_in_flight"

definition disabled_start :: tile_manager where
  "disabled_start = started True False (Some ''1.0'') (StatsParsed 50 0) False"

text \<open>
  Tools for reading keys back: the part of a string after its last underscore (in a
  template label, the sort identifier) and the number a string of decimal digits
  denotes. Two templates for the examples, with the enabled flag as parameter.
\<close>

definition suffix_id :: "string \<Rightarrow> string" where
  "suffix_id s = rev (takeWhile (\<lambda>c. c \<noteq> CHR ''_'') (rev s))"

definition decode_nat :: "string \<Rightarrow> nat" where
  "decode_nat s = foldl (\<lambda>acc c. acc * 10 + (of_char c - 48)) 0 s"

definition template_A :: "bool \<Rightarrow> template" where
  "template_A on = \<lparr>name = Some ''A'', sortID = Some 1, enabled = Some on\<rparr>"

definition template_B :: "bool \<Rightarrow> template" where
  "template_B on = \<lparr>name = Some ''B'', sortID = Some 2, enabled = Some on\<rparr>"

section \<open>Properties of the cache key\<close>

text \<open>
  Claim C5. The key for tile (12, 7), templates \<^verbatim>\<open>[{name:"A", sortID:1, enabled:true}]\<close> and
  a payload of size 100 and type \<^verbatim>\<open>image/png\<close> is \<^verbatim>\<open>0012,0007_A_1_100_image/png\<close>; with
  the template disabled it is \<^verbatim>\<open>0012,0007__100_image/png\<close>; the two keys differ, and
  both differ from the key of a payload of size 200 at the same coordinate, whether the
  template is enabled there or not.
\<close>

theorem scenario_keys:
  "generateCacheKey (CoordsArray 12 7) [\<lparr>name = Some ''A'', sortID = Some 1, enabled = Some True\<rparr>]
      (Some (Blob 100 ''image/png'' c)) = ''0012,0007_A_1_100_image/png''
   \<and> generateCacheKey (CoordsArray 12 7) [\<lparr>name = Some ''A'', sortID = Some 1, enabled = Some False\<rparr>]
      (Some (Blob 100 ''image/png'' c)) = ''0012,0007__100_image/png''
   \<and> ''0012,0007_A_1_100_image/png'' \<noteq> ''0012,0007__100_image/png''
   \<and> generateCacheKey (CoordsArray 12 7) [\<lparr>name = Some ''A'', sortID = Some 1, enabled = Some True\<rparr>]
      (Some (Blob 200 ''image/png'' c')) \<notin> {''0012,0007_A_1_100_image/png'', ''0012,0007__100_image/png''}
   \<and> generateCacheKey (CoordsArray 12 7) [\<lparr>name = Some ''A'', sortID = Some 1, enabled = Some False\<rparr>]
      (Some (Blob 200 ''image/png'' c')) \<notin> {''0012,0007_A_1_100_image/png'', ''0012,0007__100_image/png''}"
  by code_simp

section \<open>The ledger and the size of the LRU store\<close>

lemma delete_as_filter: "AList.delete k al = filter (\<lambda>p. fst p \<noteq> k) al"
  by (induction al) (auto simp: AList.delete_eq)

lemma fold_evict_eq:
  "fold evict_entry es st =
     st\<lparr>smartTileCache := filter (\<lambda>p. fst p \<notin> fst ` set es) (smartTileCache st),
        cacheAccessOrder := filter (\<lambda>p. fst p \<notin> fst ` set es) (cacheAccessOrder st)\<rparr>"
proof (induction es arbitrary: st)
  case Nil
  show ?case by simp
next
  case (Cons e es)
  have "fold evict_entry (e # es) st = fold evict_entry es (evict_entry e st)"
    by simp
  also have "\<dots> = (evict_entry e st)
      \<lparr>smartTileCache := filter (\<lambda>p. fst p \<notin> fst ` set es) (smartTileCache (evict_entry e st)),
       cacheAccessOrder := filter (\<lambda>p. fst p \<notin> fst ` set es) (cacheAccessOrder (evict_entry e st))\<rparr>"
    by (rule Cons.IH)
  also have "\<dots> = st\<lparr>smartTileCache := filter (\<lambda>p. fst p \<notin> fst ` set (e # es)) (smartTileCache st),
        cacheAccessOrder := filter (\<lambda>p. fst p \<notin> fst ` set (e # es)) (cacheAccessOrder st)\<rparr>"
    unfolding evict_entry_def delete_as_filter by simp
  finally show ?case .
qed

lemma map_fst_filter_keys: "map fst (filter (\<lambda>p. fst p \<notin> K) al) = filter (\<lambda>k. k \<notin> K) (map fst al)"
  by (induction al) auto

lemma evict_matches: "ledger_matches st \<Longrightarrow> ledger_matches (evictLRUEntries st)"
  by (simp add: ledger_matches_def evictLRUEntries_def Let_def fold_evict_eq map_fst_filter_keys)

lemma update_matches:
  "ledger_matches st \<Longrightarrow>
   ledger_matches (updateCacheAccess key now (st\<lparr>smartTileCache := AList.update key v (smartTileCache st)\<rparr>))"
  by (simp add: ledger_matches_def updateCacheAccess_def update_keys distinct_update)

lemma save_stats_matches [simp]: "ledger_matches (saveCacheStatistics st) = ledger_matches st"
  by (simp add: ledger_matches_def saveCacheStatistics_def)

lemma store_matches: "ledger_matches st \<Longrightarrow> ledger_matches (storeInSmartCache key v now st)"
  by (simp add: storeInSmartCache_def Let_def evict_matches update_matches)

lemma get_matches: "ledger_matches st \<Longrightarrow> ledger_matches (snd (getFromSmartCache key now st))"
  by (auto simp: getFromSmartCache_def ledger_matches_def updateCacheAccess_def update_keys Let_def
      split: option.splits dest!: map_of_SomeD intro: rev_image_eqI)

lemma clear_matches: "ledger_matches (clearSmartTileCache st)"
  by (simp add: clearSmartTileCache_def ledger_matches_def saveCacheStatistics_def)

lemma length_filter_notin:
  assumes "distinct ks" "distinct es" "set es \<subseteq> set ks"
  shows "length (filter (\<lambda>k. k \<notin> set es) ks) = length ks - length es"
proof -
  have "distinct (filter (\<lambda>k. k \<notin> set es) ks)"
    using assms(1) by simp
  then have "length (filter (\<lambda>k. k \<notin> set es) ks) = card (set (filter (\<lambda>k. k \<notin> set es) ks))"
    by (rule distinct_card [symmetric])
  also have "set (filter (\<lambda>k. k \<notin> set es) ks) = set ks - set es"
    by auto
  also have "card (set ks - set es) = card (set ks) - card (set es)"
    using assms(3) by (simp add: card_Diff_subset)
  finally show ?thesis
    using assms(1,2) by (simp add: distinct_card)
qed

lemma evicted_keys:
  fixes n :: nat
  assumes "ledger_matches st" and es_def: "es = take n (sort_key snd (cacheAccessOrder st))"
  shows "distinct (map fst es)" and "set (map fst es) \<subseteq> set (map fst (smartTileCache st))"
    and "length es = min n (length (smartTileCache st))"
proof -
  have m: "map fst (cacheAccessOrder st) = map fst (smartTileCache st)"
    and d: "distinct (map fst (smartTileCache st))"
    using assms(1) by (simp_all add: ledger_matches_def)
  have "mset (map fst (sort_key snd (cacheAccessOrder st))) = mset (map fst (cacheAccessOrder st))"
    by simp
  then have ds: "distinct (map fst (sort_key snd (cacheAccessOrder st)))"
    using d m by (metis mset_eq_imp_distinct_iff)
  show "distinct (map fst es)"
    unfolding es_def take_map [symmetric] using ds by (rule distinct_take)
  have "set es \<subseteq> set (cacheAccessOrder st)"
    unfolding es_def using set_take_subset [of n "sort_key snd (cacheAccessOrder st)"] by simp
  then have "fst ` set es \<subseteq> fst ` set (cacheAccessOrder st)"
    by blast
  then show "set (map fst es) \<subseteq> set (map fst (smartTileCache st))"
    using m by (metis set_map)
  have "length (cacheAccessOrder st) = length (smartTileCache st)"
    using m by (metis length_map)
  then show "length es = min n (length (smartTileCache st))"
    by (simp add: es_def)
qed

lemma evict_length:
  assumes "ledger_matches st"
  shows "length (smartTileCache (evictLRUEntries st)) =
     (if length (smartTileCache st) \<le> maxCacheSize then length (smartTileCache st) else maxCacheSize - 10)"
proof (cases "length (smartTileCache st) \<le> maxCacheSize")
  case True
  then show ?thesis by (simp add: evictLRUEntries_def)
next
  case False
  define n where "n = length (smartTileCache st) - maxCacheSize + 10"
  define es where "es = take n (sort_key snd (cacheAccessOrder st))"
  have d: "distinct (map fst (smartTileCache st))"
    using assms by (simp add: ledger_matches_def)
  have e1: "distinct (map fst es)" and e2: "set (map fst es) \<subseteq> set (map fst (smartTileCache st))"
    and e3: "length es = min n (length (smartTileCache st))"
    using evicted_keys [OF assms es_def] by blast+
  have "smartTileCache (evictLRUEntries st) = filter (\<lambda>p. fst p \<notin> fst ` set es) (smartTileCache st)"
    using False by (simp add: evictLRUEntries_def Let_def fold_evict_eq es_def n_def)
  then have "length (smartTileCache (evictLRUEntries st))
      = length (filter (\<lambda>k. k \<notin> set (map fst es)) (map fst (smartTileCache st)))"
    by (simp add: map_fst_filter_keys [symmetric])
  also have "\<dots> = length (map fst (smartTileCache st)) - length (map fst es)"
    by (rule length_filter_notin [OF d e1 e2])
  also have "\<dots> = maxCacheSize - 10"
    using False e3 by (simp add: n_def maxCacheSize_def)
  finally show ?thesis using False by simp
qed

lemma store_length:
  assumes "ledger_matches st" "smartTileCacheEnabled st"
  shows "length (smartTileCache (storeInSmartCache key v now st)) \<le> maxCacheSize"
proof -
  let ?st2 = "updateCacheAccess key now (st\<lparr>smartTileCache := AList.update key v (smartTileCache st)\<rparr>)"
  have "ledger_matches ?st2" using assms(1) by (rule update_matches)
  from evict_length [OF this] have "length (smartTileCache (evictLRUEntries ?st2)) \<le> maxCacheSize"
    by (simp split: if_splits)
  then show ?thesis
    using assms(2) by (simp add: storeInSmartCache_def Let_def saveCacheStatistics_def)
qed

lemma evict_frame [simp]:
  "tileRefreshPaused (evictLRUEntries st) = tileRefreshPaused st"
  "originalCaptured (evictLRUEntries st) = originalCaptured st"
  "installed (evictLRUEntries st) = installed st"
  "frozenTileCache (evictLRUEntries st) = frozenTileCache st"
  "isCapturingState (evictLRUEntries st) = isCapturingState st"
  "smartTileCacheEnabled (evictLRUEntries st) = smartTileCacheEnabled st"
  "cacheHits (evictLRUEntries st) = cacheHits st"
  "cacheMisses (evictLRUEntries st) = cacheMisses st"
  "gmAvailable (evictLRUEntries st) = gmAvailable st"
  "settingsWrites (evictLRUEntries st) = settingsWrites st"
  "compositeCalls (evictLRUEntries st) = compositeCalls st"
  by (simp_all add: evictLRUEntries_def Let_def fold_evict_eq)

lemma store_frame [simp]:
  "tileRefreshPaused (storeInSmartCache key v now st) = tileRefreshPaused st"
  "originalCaptured (storeInSmartCache key v now st) = originalCaptured st"
  "installed (storeInSmartCache key v now st) = installed st"
  "frozenTileCache (storeInSmartCache key v now st) = frozenTileCache st"
  "isCapturingState (storeInSmartCache key v now st) = isCapturingState st"
  "smartTileCacheEnabled (storeInSmartCache key v now st) = smartTileCacheEnabled st"
  "cacheHits (storeInSmartCache key v now st) = cacheHits st"
  "cacheMisses (storeInSmartCache key v now st) = cacheMisses st"
  "gmAvailable (storeInSmartCache key v now st) = gmAvailable st"
  "compositeCalls (storeInSmartCache key v now st) = compositeCalls st"
  by (simp_all add: storeInSmartCache_def Let_def saveCacheStatistics_def updateCacheAccess_def)

lemma lru_step_matches: "ledger_matches st \<Longrightarrow> ledger_matches (lru_step op st)"
  by (cases op) (simp_all add: store_matches get_matches evict_matches clear_matches)

lemma lru_run_matches: "ledger_matches st \<Longrightarrow> ledger_matches (fold lru_step ops st)"
  by (induction ops arbitrary: st) (simp_all add: lru_step_matches)

lemma module_state_matches: "ledger_matches (module_state gm)"
  by (simp add: ledger_matches_def module_state_def)

text \<open>
  Claim C8. After every operation on the LRU store (\<^verbatim>\<open>put\<close>, \<^verbatim>\<open>get\<close>, eviction,
  \<^verbatim>\<open>clear\<close>), in any order and any number, the ledger's key set equals the store's
  key set and the ledger holds each key once. The store and ledger are empty when the
  module is loaded, and the property is kept from any state that has it.
\<close>

theorem ledger_follows_store:
  "ledger_matches st \<Longrightarrow>
   set (map fst (cacheAccessOrder (fold lru_step ops st))) = set (map fst (smartTileCache (fold lru_step ops st)))
   \<and> distinct (map fst (cacheAccessOrder (fold lru_step ops st)))"
  using lru_run_matches [of st ops] by (simp add: ledger_matches_def)

theorem ledger_follows_store_witness:
  "ledger_matches (module_state False)
   \<and> set (map fst (cacheAccessOrder (fold lru_step
        [Put ''a'' None 5, Put ''b'' None 6, Get ''a'' 7, Get ''z'' 8, Evict, Put ''a'' None 9, Clear,
         Put ''c'' None 10] (module_state False)))) = {''c''}
   \<and> set (map fst (smartTileCache (fold lru_step
        [Put ''a'' None 5, Put ''b'' None 6, Get ''a'' 7, Get ''z'' 8, Evict, Put ''a'' None 9, Clear,
         Put ''c'' None 10] (module_state False)))) = {''c''}"
proof -
  have h: "ledger_matches (module_state False)"
    by (rule module_state_matches)
  have c: "smartTileCache (fold lru_step
        [Put ''a'' None 5, Put ''b'' None 6, Get ''a'' 7, Get ''z'' 8, Evict, Put ''a'' None 9, Clear,
         Put ''c'' None 10] (module_state False)) = [(''c'', None)]"
    by (simp add: module_state_def storeInSmartCache_def getFromSmartCache_def evictLRUEntries_def
        clearSmartTileCache_def saveCacheStatistics_def updateCacheAccess_def maxCacheSize_def Let_def)
  show ?thesis
    using h c ledger_follows_store [OF h, of "[Put ''a'' None 5, Put ''b'' None 6, Get ''a'' 7, Get ''z'' 8, Evict, Put ''a'' None 9, Clear,
         Put ''c'' None 10]"] by simp
qed

lemma put_step_matches: "ledger_matches st \<Longrightarrow> ledger_matches (put_step p st)"
  by (simp add: put_step_def store_matches)

lemma puts_matches: "ledger_matches st \<Longrightarrow> ledger_matches (puts ps st)"
  unfolding puts_def by (induction ps arbitrary: st) (simp_all add: put_step_matches)

lemma puts_enabled [simp]: "smartTileCacheEnabled (puts ps st) = smartTileCacheEnabled st"
  unfolding puts_def by (induction ps arbitrary: st) (simp_all add: put_step_def)

lemma puts_append: "puts (ps @ qs) st = puts qs (puts ps st)"
  by (simp add: puts_def)

text \<open>
  Claim C3. With the cache enabled, after every \<^verbatim>\<open>put\<close> of every sequence of
  \<^verbatim>\<open>put\<close>s the store holds at most \<^verbatim>\<open>maxCacheSize\<close> = 500 entries. The sequence starts
  in any state whose ledger matches its store, as every state of the module does; inside
  a \<^verbatim>\<open>put\<close> the store may hold one entry more until \<^verbatim>\<open>evictLRUEntries\<close> has run.
\<close>

theorem puts_keep_store_bounded:
  assumes "ledger_matches st" and "smartTileCacheEnabled st" and "ps \<noteq> []"
  shows "length (smartTileCache (puts ps st)) \<le> maxCacheSize \<and> maxCacheSize = 500"
proof -
  from assms(3) obtain qs p where ps: "ps = qs @ [p]"
    by (cases ps rule: rev_cases) auto
  have "ledger_matches (puts qs st)" "smartTileCacheEnabled (puts qs st)"
    using assms(1,2) by (simp_all add: puts_matches)
  then have "length (smartTileCache (storeInSmartCache (fst p) (fst (snd p)) (snd (snd p)) (puts qs st))) \<le> maxCacheSize"
    by (rule store_length)
  then show ?thesis
    by (simp add: ps puts_append) (simp add: puts_def put_step_def maxCacheSize_def)
qed

theorem puts_keep_store_bounded_witness:
  "ledger_matches (module_state False) \<and> smartTileCacheEnabled (module_state False)
   \<and> [(''a'', None, 1), (''b'', None, 2)] \<noteq> []
   \<and> length (smartTileCache (puts [(''a'', None, 1), (''b'', None, 2)] (module_state False))) \<le> maxCacheSize"
proof -
  have h: "ledger_matches (module_state False)"
    by (rule module_state_matches)
  have e: "smartTileCacheEnabled (module_state False)"
    by (simp add: module_state_def)
  show ?thesis
    using h e puts_keep_store_bounded [OF h e, of "[(''a'', None, 1), (''b'', None, 2)]"] by simp
qed

lemma update_fresh: "k \<notin> fst ` set al \<Longrightarrow> AList.update k v al = al @ [(k, v)]"
  by (induction al) auto

lemma store_fields:
  assumes "smartTileCacheEnabled st"
  shows "smartTileCache (storeInSmartCache key v now st) =
      smartTileCache (evictLRUEntries (st\<lparr>smartTileCache := AList.update key v (smartTileCache st),
        cacheAccessOrder := AList.update key now (cacheAccessOrder st)\<rparr>))"
    and "cacheAccessOrder (storeInSmartCache key v now st) =
      cacheAccessOrder (evictLRUEntries (st\<lparr>smartTileCache := AList.update key v (smartTileCache st),
        cacheAccessOrder := AList.update key now (cacheAccessOrder st)\<rparr>))"
  using assms by (simp_all add: storeInSmartCache_def Let_def saveCacheStatistics_def updateCacheAccess_def)

lemma evict_fields:
  "smartTileCache (evictLRUEntries st) =
     (if length (smartTileCache st) \<le> maxCacheSize then smartTileCache st
      else filter (\<lambda>p. fst p \<notin> fst ` set (take (length (smartTileCache st) - maxCacheSize + 10)
             (sort_key snd (cacheAccessOrder st)))) (smartTileCache st))"
  "cacheAccessOrder (evictLRUEntries st) =
     (if length (smartTileCache st) \<le> maxCacheSize then cacheAccessOrder st
      else filter (\<lambda>p. fst p \<notin> fst ` set (take (length (smartTileCache st) - maxCacheSize + 10)
             (sort_key snd (cacheAccessOrder st)))) (cacheAccessOrder st))"
  by (simp_all add: evictLRUEntries_def Let_def fold_evict_eq)

lemma store_fresh:
  assumes "smartTileCacheEnabled st"
    and "map fst (cacheAccessOrder st) = map fst (smartTileCache st)"
    and "key \<notin> set (map fst (smartTileCache st))"
    and "length (smartTileCache st) < maxCacheSize"
  shows "smartTileCache (storeInSmartCache key v now st) = smartTileCache st @ [(key, v)]"
    and "cacheAccessOrder (storeInSmartCache key v now st) = cacheAccessOrder st @ [(key, now)]"
proof -
  have a: "key \<notin> fst ` set (smartTileCache st)" "key \<notin> fst ` set (cacheAccessOrder st)"
    using assms(2,3) by (simp_all flip: set_map)
  show "smartTileCache (storeInSmartCache key v now st) = smartTileCache st @ [(key, v)]"
    using assms(4) by (simp add: store_fields [OF assms(1)] evict_fields update_fresh a)
  show "cacheAccessOrder (storeInSmartCache key v now st) = cacheAccessOrder st @ [(key, now)]"
    using assms(4) by (simp add: store_fields [OF assms(1)] evict_fields update_fresh a)
qed

lemma puts_fresh:
  assumes "smartTileCacheEnabled st"
    and "map fst (cacheAccessOrder st) = map fst (smartTileCache st)"
    and "distinct (map fst ps)"
    and "set (map fst ps) \<inter> set (map fst (smartTileCache st)) = {}"
    and "length (smartTileCache st) + length ps \<le> maxCacheSize"
  shows "smartTileCache (puts ps st) = smartTileCache st @ map entry_of ps
    \<and> cacheAccessOrder (puts ps st) = cacheAccessOrder st @ map access_of ps"
  using assms
proof (induction ps arbitrary: st)
  case Nil
  show ?case by (simp add: puts_def)
next
  case (Cons p ps)
  let ?st1 = "put_step p st"
  have k: "fst p \<notin> set (map fst (smartTileCache st))" and l: "length (smartTileCache st) < maxCacheSize"
    using Cons.prems(4,5) by auto
  have s1: "smartTileCache ?st1 = smartTileCache st @ [entry_of p]"
    and c1: "cacheAccessOrder ?st1 = cacheAccessOrder st @ [access_of p]"
    unfolding put_step_def entry_of_def access_of_def
    using store_fresh [OF Cons.prems(1,2) k l] by simp_all
  have "smartTileCache (puts ps ?st1) = smartTileCache ?st1 @ map entry_of ps
    \<and> cacheAccessOrder (puts ps ?st1) = cacheAccessOrder ?st1 @ map access_of ps"
  proof (rule Cons.IH)
    show "smartTileCacheEnabled ?st1" using Cons.prems(1) by (simp add: put_step_def)
    show "map fst (cacheAccessOrder ?st1) = map fst (smartTileCache ?st1)"
      using Cons.prems(2) by (simp add: s1 c1 entry_of_def access_of_def)
    show "distinct (map fst ps)" using Cons.prems(3) by simp
    show "set (map fst ps) \<inter> set (map fst (smartTileCache ?st1)) = {}"
      using Cons.prems(3,4) by (auto simp: s1 entry_of_def)
    show "length (smartTileCache ?st1) + length ps \<le> maxCacheSize"
      using Cons.prems(5) by (simp add: s1)
  qed
  then show ?case
    by (simp add: s1 c1 puts_def)
qed

lemma fst_entry_of [simp]:
  "fst (entry_of p) = fst p" "fst (access_of p) = fst p" "snd (access_of p) = snd (snd p)"
  by (simp_all add: entry_of_def access_of_def)

lemma fst_comp_entry_of [simp]: "fst \<circ> entry_of = fst" "fst \<circ> access_of = fst"
  by (simp_all add: fun_eq_iff)

lemma map_fst_entry_of [simp]: "map fst (map entry_of ps) = map fst ps"
  by (simp add: entry_of_def)

lemma map_fst_access_of [simp]: "map fst (map access_of ps) = map fst ps"
  by (simp add: access_of_def)

lemma image_fst_entry_of [simp]: "fst ` entry_of ` S = fst ` S"
  by (force simp: entry_of_def)

lemma image_fst_access_of [simp]: "fst ` access_of ` S = fst ` S"
  by (force simp: access_of_def)

lemma filter_entries_drop:
  assumes "distinct (map fst xs)"
  shows "filter (\<lambda>e. fst e \<notin> set (map fst (take n xs))) xs = drop n xs"
proof -
  have "xs = take n xs @ drop n xs" by simp
  then have d: "set (map fst (take n xs)) \<inter> set (map fst (drop n xs)) = {}"
    using assms by (metis distinct_append map_append)
  have a: "filter (\<lambda>e. fst e \<notin> set (map fst (take n xs))) (take n xs) = []"
    by (auto simp: filter_empty_conv)
  have b: "filter (\<lambda>e. fst e \<notin> set (map fst (take n xs))) (drop n xs) = drop n xs"
    using d by (auto simp: filter_id_conv)
  have "filter (\<lambda>e. fst e \<notin> set (map fst (take n xs))) (take n xs @ drop n xs) = drop n xs"
    unfolding filter_append a b by simp
  then show ?thesis by simp
qed

text \<open>
  Claim C4. Starting from an empty store with the cache enabled, \<^verbatim>\<open>put\<close>s of
  \<^verbatim>\<open>maxCacheSize + 11\<close> = 511 distinct keys with no \<^verbatim>\<open>get\<close> in between leave exactly
  \<^verbatim>\<open>maxCacheSize\<close> = 500 entries. The absent entries are the 11 (= 501 - 500 + 10)
  oldest by access time at the 501st \<^verbatim>\<open>put\<close>, ties in insertion order; when the clock
  never runs backwards these are the first 11 keys put.
\<close>

theorem overflow_evicts_oldest:
  assumes en: "smartTileCacheEnabled st"
    and s0: "smartTileCache st = []" and c0: "cacheAccessOrder st = []"
    and len: "length ps = maxCacheSize + 11"
    and dist: "distinct (map fst ps)"
  shows "length (smartTileCache (puts ps st)) = maxCacheSize
    \<and> smartTileCache (puts ps st) = filter (\<lambda>e. fst e \<notin> set (lru_victims ps)) (map entry_of ps)
    \<and> length (lru_victims ps) = 11 \<and> distinct (lru_victims ps) \<and> set (lru_victims ps) \<subseteq> set (map fst ps)
    \<and> (sorted (map (\<lambda>p. snd (snd p)) ps) \<longrightarrow>
         lru_victims ps = map fst (take 11 ps) \<and> smartTileCache (puts ps st) = drop 11 (map entry_of ps))"
proof -
  define A where "A = take maxCacheSize ps"
  define p where "p = ps ! maxCacheSize"
  define B where "B = drop (Suc maxCacheSize) ps"
  have ps: "ps = A @ p # B"
    unfolding A_def p_def B_def using len by (simp add: id_take_nth_drop)
  have lA: "length A = maxCacheSize" and lB: "length B = 10"
    using len by (simp_all add: A_def B_def)
  have Ap': "take (Suc maxCacheSize) ps = A @ [p]"
    using lA by (simp add: ps)
  then have Ap: "take (maxCacheSize + 1) ps = A @ [p]"
    by simp
  define st1 where "st1 = puts A st"
  have en1: "smartTileCacheEnabled st1" using en by (simp add: st1_def)
  have "smartTileCache st1 = smartTileCache st @ map entry_of A
      \<and> cacheAccessOrder st1 = cacheAccessOrder st @ map access_of A"
    unfolding st1_def using en dist lA by (intro puts_fresh) (simp_all add: s0 c0 ps)
  then have s1: "smartTileCache st1 = map entry_of A" and c1: "cacheAccessOrder st1 = map access_of A"
    by (simp_all add: s0 c0)
  define st1' where "st1' = st1\<lparr>smartTileCache := AList.update (fst p) (fst (snd p)) (smartTileCache st1),
        cacheAccessOrder := AList.update (fst p) (snd (snd p)) (cacheAccessOrder st1)\<rparr>"
  have fresh: "fst p \<notin> fst ` set (map entry_of A)" "fst p \<notin> fst ` set (map access_of A)"
    using dist by (simp_all add: ps)
  have s1': "smartTileCache st1' = map entry_of (A @ [p])"
    and c1': "cacheAccessOrder st1' = map access_of (A @ [p])"
    using fresh by (simp_all add: st1'_def s1 c1 update_fresh) (simp_all add: entry_of_def access_of_def)
  have dA: "distinct (map fst (A @ [p]))"
    using dist by (simp add: ps)
  have m1': "ledger_matches st1'"
    using dA by (simp add: ledger_matches_def s1' c1' del: map_append)
  define st2 where "st2 = put_step p st1"
  define V where "V = lru_victims ps"
  have V: "V = map fst (take 11 (sort_key snd (cacheAccessOrder st1')))"
    unfolding V_def lru_victims_def Ap c1' by (rule refl)
  have s2: "smartTileCache st2 = filter (\<lambda>e. fst e \<notin> set V) (map entry_of (A @ [p]))"
    and c2: "cacheAccessOrder st2 = filter (\<lambda>e. fst e \<notin> set V) (map access_of (A @ [p]))"
    unfolding st2_def put_step_def store_fields [OF en1] st1'_def [symmetric]
    by (simp_all add: evict_fields s1' c1' lA V del: map_append)
  have l2: "length (smartTileCache st2) = maxCacheSize - 10"
    unfolding st2_def put_step_def store_fields [OF en1] st1'_def [symmetric]
    using evict_length [OF m1'] by (simp add: s1' lA)
  have vk: "distinct V" "set V \<subseteq> set (map fst (A @ [p]))" "length V = 11"
    using evicted_keys [OF m1' refl, of 11] by (simp_all add: V s1' lA maxCacheSize_def del: map_append)
  have en2: "smartTileCacheEnabled st2" using en1 by (simp add: st2_def put_step_def)
  have "puts ps st = puts B st2"
    by (simp add: ps puts_append st1_def st2_def) (simp add: puts_def)
  moreover have "smartTileCache (puts B st2) = smartTileCache st2 @ map entry_of B
      \<and> cacheAccessOrder (puts B st2) = cacheAccessOrder st2 @ map access_of B"
  proof (rule puts_fresh [OF en2])
    show "map fst (cacheAccessOrder st2) = map fst (smartTileCache st2)"
      by (simp add: s2 c2 map_fst_filter_keys del: map_append)
    show "distinct (map fst B)" using dist by (simp add: ps)
    have "set (map fst (smartTileCache st2)) \<subseteq> set (map fst (A @ [p]))"
      unfolding s2 map_fst_filter_keys by auto
    moreover have "set (map fst B) \<inter> set (map fst (A @ [p])) = {}"
      using dist by (auto simp: ps)
    ultimately show "set (map fst B) \<inter> set (map fst (smartTileCache st2)) = {}"
      by blast
    show "length (smartTileCache st2) + length B \<le> maxCacheSize"
      by (simp add: l2 lB maxCacheSize_def)
  qed
  ultimately have fin: "smartTileCache (puts ps st) = smartTileCache st2 @ map entry_of B"
    by simp
  have "fst ` set (map entry_of B) = set (map fst B)"
    by simp
  moreover have "set (map fst B) \<inter> set (map fst (A @ [p])) = {}"
    using dist by (auto simp: ps)
  ultimately have "fst ` set (map entry_of B) \<inter> set V = {}"
    using vk(2) by blast
  then have "\<forall>e\<in>set (map entry_of B). fst e \<notin> set V"
    by blast
  then have nB: "filter (\<lambda>e. fst e \<notin> set V) (map entry_of B) = map entry_of B"
    by (simp only: filter_id_conv)
  have "filter (\<lambda>e. fst e \<notin> set V) (map entry_of ps) =
      filter (\<lambda>e. fst e \<notin> set V) (map entry_of (A @ [p])) @
      filter (\<lambda>e. fst e \<notin> set V) (map entry_of B)"
    by (simp add: ps)
  then have full: "smartTileCache (puts ps st) = filter (\<lambda>e. fst e \<notin> set V) (map entry_of ps)"
    by (simp only: fin s2 nB)
  have lenfin: "length (smartTileCache (puts ps st)) = maxCacheSize"
    by (simp add: fin l2 lB maxCacheSize_def)
  have sub: "set V \<subseteq> set (map fst ps)"
    using vk(2) by (auto simp: ps)
  have srt: "V = map fst (take 11 ps) \<and> smartTileCache (puts ps st) = drop 11 (map entry_of ps)"
    if "sorted (map (\<lambda>p. snd (snd p)) ps)"
  proof -
    have "sorted (map snd (map access_of (A @ [p])))"
      using that sorted_wrt_take [of "(\<le>)" "map (\<lambda>p. snd (snd p)) ps" "maxCacheSize + 1"]
      by (simp add: comp_def take_map Ap' del: map_append)
    then have "sort_key snd (map access_of (A @ [p])) = map access_of (A @ [p])"
      by (rule sort_key_id_if_sorted)
    then have "V = map fst (take 11 (map access_of (take (maxCacheSize + 1) ps)))"
      unfolding V c1' Ap by simp
    then have v: "V = map fst (take 11 ps)"
      by (simp add: take_map maxCacheSize_def min_def access_of_def comp_def)
    have "V = map fst (take 11 (map entry_of ps))"
      by (simp add: v take_map)
    moreover have "distinct (map fst (map entry_of ps))"
      using dist by simp
    ultimately have "filter (\<lambda>e. fst e \<notin> set V) (map entry_of ps) = drop 11 (map entry_of ps)"
      using filter_entries_drop [of "map entry_of ps" 11] by simp
    then show ?thesis using v full by simp
  qed
  from srt have srt': "sorted (map (\<lambda>p. snd (snd p)) ps) \<longrightarrow>
      V = map fst (take 11 ps) \<and> smartTileCache (puts ps st) = drop 11 (map entry_of ps)"
    by (rule impI)
  show ?thesis
    unfolding V_def [symmetric] using lenfin full vk(1,3) sub srt' by (intro conjI)
qed

theorem overflow_evicts_oldest_witness:
  "smartTileCacheEnabled (module_state False) \<and> smartTileCache (module_state False) = []
   \<and> cacheAccessOrder (module_state False) = []
   \<and> length (map (\<lambda>i. (replicate i CHR ''k'', None :: payload, int i)) [0..<511]) = maxCacheSize + 11
   \<and> distinct (map fst (map (\<lambda>i. (replicate i CHR ''k'', None :: payload, int i)) [0..<511]))
   \<and> sorted (map (\<lambda>p. snd (snd p)) (map (\<lambda>i. (replicate i CHR ''k'', None :: payload, int i)) [0..<511]))
   \<and> length (smartTileCache (puts (map (\<lambda>i. (replicate i CHR ''k'', None :: payload, int i)) [0..<511])
        (module_state False))) = maxCacheSize
   \<and> smartTileCache (puts (map (\<lambda>i. (replicate i CHR ''k'', None :: payload, int i)) [0..<511]) (module_state False))
      = drop 11 (map entry_of (map (\<lambda>i. (replicate i CHR ''k'', None :: payload, int i)) [0..<511]))"
proof -
  define ps :: "(string \<times> payload \<times> int) list"
    where "ps = map (\<lambda>i. (replicate i CHR ''k'', None :: payload, int i)) [0..<511]"
  have en: "smartTileCacheEnabled (module_state False)"
    and s0: "smartTileCache (module_state False) = []"
    and c0: "cacheAccessOrder (module_state False) = []"
    by (simp_all add: module_state_def)
  have len: "length ps = maxCacheSize + 11"
    by (simp add: ps_def maxCacheSize_def)
  have "inj_on (\<lambda>i. replicate i CHR ''k'') (set [0..<511])"
    by (rule inj_onI) simp
  then have dist: "distinct (map fst ps)"
    by (simp add: ps_def comp_def distinct_map)
  have "map (\<lambda>p. snd (snd p)) ps = map int [0..<511]"
    by (simp add: ps_def comp_def)
  moreover have "sorted (map int [0..<511])"
    by (simp add: sorted_map)
  ultimately have srt: "sorted (map (\<lambda>p. snd (snd p)) ps)"
    by simp
  from overflow_evicts_oldest [OF en s0 c0 len dist] srt
  have "length (smartTileCache (puts ps (module_state False))) = maxCacheSize"
    and "smartTileCache (puts ps (module_state False)) = drop 11 (map entry_of ps)"
    by blast+
  then show ?thesis
    using en s0 c0 len dist srt unfolding ps_def by (intro conjI)
qed

section \<open>Fields that the operations leave alone\<close>

lemma get_frame [simp]:
  "tileRefreshPaused (snd (getFromSmartCache key now st)) = tileRefreshPaused st"
  "originalCaptured (snd (getFromSmartCache key now st)) = originalCaptured st"
  "installed (snd (getFromSmartCache key now st)) = installed st"
  "frozenTileCache (snd (getFromSmartCache key now st)) = frozenTileCache st"
  "isCapturingState (snd (getFromSmartCache key now st)) = isCapturingState st"
  "smartTileCacheEnabled (snd (getFromSmartCache key now st)) = smartTileCacheEnabled st"
  "smartTileCache (snd (getFromSmartCache key now st)) = smartTileCache st"
  "gmAvailable (snd (getFromSmartCache key now st)) = gmAvailable st"
  "settingsWrites (snd (getFromSmartCache key now st)) = settingsWrites st"
  "compositeCalls (snd (getFromSmartCache key now st)) = compositeCalls st"
  by (simp_all add: getFromSmartCache_def updateCacheAccess_def Let_def split: option.splits)

lemma clear_frame [simp]:
  "tileRefreshPaused (clearSmartTileCache st) = tileRefreshPaused st"
  "originalCaptured (clearSmartTileCache st) = originalCaptured st"
  "installed (clearSmartTileCache st) = installed st"
  "frozenTileCache (clearSmartTileCache st) = frozenTileCache st"
  "isCapturingState (clearSmartTileCache st) = isCapturingState st"
  "smartTileCacheEnabled (clearSmartTileCache st) = smartTileCacheEnabled st"
  "smartTileCache (clearSmartTileCache st) = []"
  "cacheAccessOrder (clearSmartTileCache st) = []"
  "cacheHits (clearSmartTileCache st) = 0"
  "cacheMisses (clearSmartTileCache st) = 0"
  "gmAvailable (clearSmartTileCache st) = gmAvailable st"
  "settingsWrites (clearSmartTileCache st) =
     settingsWrites st @ [(LocalStorage, CACHE_STATS_KEY, StatsJSON 0 0)]"
  "compositeCalls (clearSmartTileCache st) = compositeCalls st"
  by (simp_all add: clearSmartTileCache_def saveCacheStatistics_def)

lemma begin_frame [simp]:
  "tileRefreshPaused (snd (wrapper_begin probe ts blob coords now st)) = tileRefreshPaused st"
  "originalCaptured (snd (wrapper_begin probe ts blob coords now st)) = originalCaptured st"
  "installed (snd (wrapper_begin probe ts blob coords now st)) = installed st"
  "frozenTileCache (snd (wrapper_begin probe ts blob coords now st)) = frozenTileCache st"
  "isCapturingState (snd (wrapper_begin probe ts blob coords now st)) = isCapturingState st"
  "smartTileCacheEnabled (snd (wrapper_begin probe ts blob coords now st)) = smartTileCacheEnabled st"
  "smartTileCache (snd (wrapper_begin probe ts blob coords now st)) = smartTileCache st"
  "gmAvailable (snd (wrapper_begin probe ts blob coords now st)) = gmAvailable st"
  "settingsWrites (snd (wrapper_begin probe ts blob coords now st)) = settingsWrites st"
  by (simp_all add: wrapper_begin_def Let_def split_beta split: option.splits)

lemma begin_matches:
  "ledger_matches st \<Longrightarrow> ledger_matches (snd (wrapper_begin probe ts blob coords now st))"
  using get_matches [of st "generateCacheKey coords ts blob" now]
  by (auto simp: wrapper_begin_def Let_def split_beta ledger_matches_def split: option.splits)

lemma store_result_frame [simp]:
  "tileRefreshPaused (store_result key coords result now st) = tileRefreshPaused st"
  "originalCaptured (store_result key coords result now st) = originalCaptured st"
  "installed (store_result key coords result now st) = installed st"
  "isCapturingState (store_result key coords result now st) = isCapturingState st"
  "smartTileCacheEnabled (store_result key coords result now st) = smartTileCacheEnabled st"
  "cacheHits (store_result key coords result now st) = cacheHits st"
  "cacheMisses (store_result key coords result now st) = cacheMisses st"
  "gmAvailable (store_result key coords result now st) = gmAvailable st"
  "compositeCalls (store_result key coords result now st) = compositeCalls st"
  by (simp_all add: store_result_def Let_def split: list.splits)

lemma store_result_lru:
  "smartTileCache (store_result key coords result now st) =
     (if \<not> tileRefreshPaused st \<and> \<not> isCapturingState st \<and> smartTileCacheEnabled st
      then smartTileCache (storeInSmartCache key result now st) else smartTileCache st)"
  "cacheAccessOrder (store_result key coords result now st) =
     (if \<not> tileRefreshPaused st \<and> \<not> isCapturingState st \<and> smartTileCacheEnabled st
      then cacheAccessOrder (storeInSmartCache key result now st) else cacheAccessOrder st)"
  "settingsWrites (store_result key coords result now st) =
     (if \<not> tileRefreshPaused st \<and> \<not> isCapturingState st \<and> smartTileCacheEnabled st
      then settingsWrites (storeInSmartCache key result now st) else settingsWrites st)"
  by (simp_all add: store_result_def Let_def split: list.splits)

lemma save_setting_frame [simp]:
  "tileRefreshPaused (save_setting k b st) = tileRefreshPaused st"
  "originalCaptured (save_setting k b st) = originalCaptured st"
  "installed (save_setting k b st) = installed st"
  "frozenTileCache (save_setting k b st) = frozenTileCache st"
  "isCapturingState (save_setting k b st) = isCapturingState st"
  "smartTileCacheEnabled (save_setting k b st) = smartTileCacheEnabled st"
  "smartTileCache (save_setting k b st) = smartTileCache st"
  "cacheAccessOrder (save_setting k b st) = cacheAccessOrder st"
  "cacheHits (save_setting k b st) = cacheHits st"
  "cacheMisses (save_setting k b st) = cacheMisses st"
  "gmAvailable (save_setting k b st) = gmAvailable st"
  "compositeCalls (save_setting k b st) = compositeCalls st"
  by (simp_all add: save_setting_def)

section \<open>The frozen store\<close>

lemma update_length: "length (AList.update k v al) = (if k \<in> fst ` set al then length al else Suc (length al))"
  by (induction al) auto

lemma frozen_write:
  assumes "length fs \<le> 100" and "distinct (map fst fs)"
  shows "(let fs' = AList.update k v fs
          in if length fs' > 100 then (case fs' of [] \<Rightarrow> fs' | firstEntry # _ \<Rightarrow> AList.delete (fst firstEntry) fs') else fs')
     = (if k \<in> fst ` set fs \<or> length fs < 100 then AList.update k v fs else tl fs @ [(k, v)])"
proof (cases "k \<in> fst ` set fs \<or> length fs < 100")
  case True
  then show ?thesis using assms(1) by (auto simp: update_length Let_def)
next
  case False
  then have k: "k \<notin> fst ` set fs" and l: "length fs = 100"
    using assms(1) by auto
  then obtain e es where fs: "fs = e # es"
    by (cases fs) auto
  have "AList.update k v fs = fs @ [(k, v)]"
    using k by (rule update_fresh)
  then have u: "AList.update k v fs = e # es @ [(k, v)]"
    by (simp only: fs append_Cons)
  have "fst e \<noteq> k" using k fs by force
  moreover have "fst e \<notin> fst ` set es" using assms(2) by (simp add: fs)
  ultimately have "AList.delete (fst e) (e # es @ [(k, v)]) = es @ [(k, v)]"
    by (auto simp: delete_as_filter filter_id_conv image_iff)
  then show ?thesis
    using False l by (simp add: Let_def u) (simp add: fs)
qed

lemma store_result_frozen:
  assumes "length (frozenTileCache st) \<le> 100" and "distinct (map fst (frozenTileCache st))"
  shows "frozenTileCache (store_result cacheKey tileCoords result now st) =
     (if tileRefreshPaused st \<or> isCapturingState st \<or> \<not> smartTileCacheEnabled st then frozenTileCache st
      else if tileKey tileCoords \<in> fst ` set (frozenTileCache st) \<or> length (frozenTileCache st) < 100
        then AList.update (tileKey tileCoords) result (frozenTileCache st)
        else tl (frozenTileCache st) @ [(tileKey tileCoords, result)])"
proof (cases "tileRefreshPaused st \<or> isCapturingState st \<or> \<not> smartTileCacheEnabled st")
  case True
  then show ?thesis by (auto simp: store_result_def)
next
  case False
  have "frozenTileCache (store_result cacheKey tileCoords result now st) =
      (let fs' = AList.update (tileKey tileCoords) result (frozenTileCache st)
       in if length fs' > 100 then (case fs' of [] \<Rightarrow> fs' | firstEntry # _ \<Rightarrow> AList.delete (fst firstEntry) fs') else fs')"
    using False by (simp add: store_result_def Let_def split: list.splits)
  then show ?thesis
    using False by (simp only: frozen_write [OF assms]) simp
qed

lemma store_result_frozen_ok:
  assumes "length (frozenTileCache st) \<le> 100" and "distinct (map fst (frozenTileCache st))"
  shows "length (frozenTileCache (store_result cacheKey tileCoords result now st)) \<le> 100"
    and "distinct (map fst (frozenTileCache (store_result cacheKey tileCoords result now st)))"
proof -
  show "length (frozenTileCache (store_result cacheKey tileCoords result now st)) \<le> 100"
    using assms(1) by (auto simp: store_result_frozen [OF assms] update_length)
  have "distinct (map fst (tl (frozenTileCache st)))"
    using assms(2) by (cases "frozenTileCache st") auto
  moreover have "set (tl (frozenTileCache st)) \<subseteq> set (frozenTileCache st)"
    by (cases "frozenTileCache st") auto
  ultimately show "distinct (map fst (frozenTileCache (store_result cacheKey tileCoords result now st)))"
    using assms(2) by (auto simp: store_result_frozen [OF assms] distinct_update)
qed

lemma run_wrapper_frozen:
  assumes "length (frozenTileCache st) \<le> 100" and "distinct (map fst (frozenTileCache st))"
  shows "length (frozenTileCache (snd (run_wrapper probe outcome ts blob coords t1 t2 st))) \<le> 100"
proof (cases "wrapper_begin probe ts blob coords t1 st")
  case (Pair pr st1)
  have f: "frozenTileCache st1 = frozenTileCache st"
    using begin_frame(4) [of probe ts blob coords t1 st] by (simp add: Pair)
  show ?thesis
  proof (cases pr)
    case (Returned r)
    then show ?thesis using assms(1) by (simp add: run_wrapper_def Pair f)
  next
    case (Awaiting key)
    have "length (frozenTileCache (store_result key coords result t2 st1)) \<le> 100" for result
      using assms by (intro store_result_frozen_ok) (simp_all add: f)
    then show ?thesis
      using assms(1) by (cases outcome) (simp_all add: run_wrapper_def Pair Awaiting wrapper_resume_def f)
  qed
qed

section \<open>Every reachable state is well formed\<close>

lemma store_result_matches: "ledger_matches st \<Longrightarrow> ledger_matches (store_result key coords result now st)"
  using store_matches [of st key result now]
  by (simp add: ledger_matches_def store_result_lru)

lemma store_result_length:
  "ledger_matches st \<Longrightarrow> length (smartTileCache st) \<le> maxCacheSize \<Longrightarrow>
   length (smartTileCache (store_result key coords result now st)) \<le> maxCacheSize"
  using store_length [of st key result now] by (simp add: store_result_lru)

lemma clear_well_formed: "well_formed st \<Longrightarrow> well_formed (clearSmartTileCache st)"
  by (simp add: well_formed_def ledger_matches_def)

lemma initialize_well_formed:
  assumes "ledger_matches st" "length (smartTileCache st) \<le> maxCacheSize"
    "length (frozenTileCache st) \<le> 100" "distinct (map fst (frozenTileCache st))"
    "\<not> isCapturingState st"
  shows "well_formed (initializeTileRefreshPause e v s p st)"
  using assms
  by (cases s)
    (simp_all add: well_formed_def initializeTileRefreshPause_def initializeSmartTileCache_def
      applyTileRefreshPause_def ledger_matches_def Let_def)

lemma started_well_formed: "well_formed (started gm e v s p)"
  unfolding started_def
  by (rule initialize_well_formed) (simp_all add: module_state_def ledger_matches_def)

lemma step_well_formed: "well_formed st \<Longrightarrow> well_formed (step ev st)"
proof (cases ev)
  case (Initialize e v s p)
  assume "well_formed st"
  then show ?thesis
    unfolding Initialize step.simps by (intro initialize_well_formed) (simp_all add: well_formed_def)
next
  case (Begin ts blob coords now)
  assume "well_formed st"
  then show ?thesis
    by (simp add: Begin request_begin_def well_formed_def begin_matches)
next
  case (Settle key coords outcome now)
  assume "well_formed st"
  then show ?thesis
    by (cases outcome)
      (simp_all add: Settle wrapper_resume_def well_formed_def store_result_matches
        store_result_length store_result_frozen_ok)
next
  case TogglePause
  assume "well_formed st"
  then show ?thesis
    by (simp add: TogglePause toggleTileRefreshPause_def saveTileRefreshPaused_def
        applyTileRefreshPause_def well_formed_def ledger_matches_def Let_def)
next
  case ToggleCache
  assume "well_formed st"
  then show ?thesis
    by (simp add: ToggleCache toggleSmartTileCache_def saveSmartTileCacheEnabled_def
        well_formed_def ledger_matches_def Let_def)
next
  case SettingsChanged
  assume "well_formed st"
  then show ?thesis
    by (simp add: SettingsChanged invalidateCacheForSettingsChange_def clear_well_formed)
next
  case (ForceRefresh outcome blob coords)
  assume "well_formed st"
  then show ?thesis
    by (simp add: ForceRefresh forceRefreshSingleTile_def well_formed_def ledger_matches_def)
next
  case ClearFrozen
  assume "well_formed st"
  then show ?thesis
    by (simp add: ClearFrozen clearFrozenTileCache_def well_formed_def ledger_matches_def)
qed

lemma run_well_formed: "well_formed st \<Longrightarrow> well_formed (run evs st)"
  unfolding run_def by (induction evs arbitrary: st) (simp_all add: step_well_formed)

lemma reachable_well_formed: "well_formed (run evs (started gm e v s p))"
  by (rule run_well_formed [OF started_well_formed])

section \<open>The capacity of the frozen store\<close>

text \<open>
  Claim C7. The frozen store never holds more than 100 entries after a compositing
  request: not after a request served from a state within the capacity, and not in any
  state the module reaches. A write of the wrappers to a store already holding 100 other
  keys drops exactly the first, oldest-inserted entry and appends the new one; a write to
  a present key replaces the value in place, and reads never reorder the store.
\<close>

theorem frozen_store_capped:
  assumes "length (frozenTileCache st) \<le> 100" and "distinct (map fst (frozenTileCache st))"
  shows "length (frozenTileCache (snd (drawTemplateOnTile outcome ts blob coords t1 t2 st))) \<le> 100
    \<and> frozenTileCache (store_result cacheKey tileCoords result now st) =
        (if tileRefreshPaused st \<or> isCapturingState st \<or> \<not> smartTileCacheEnabled st then frozenTileCache st
         else if tileKey tileCoords \<in> fst ` set (frozenTileCache st) \<or> length (frozenTileCache st) < 100
           then AList.update (tileKey tileCoords) result (frozenTileCache st)
           else tl (frozenTileCache st) @ [(tileKey tileCoords, result)])
    \<and> length (frozenTileCache (run evs (started gm e v s p))) \<le> 100"
proof (intro conjI)
  show "length (frozenTileCache (snd (drawTemplateOnTile outcome ts blob coords t1 t2 st))) \<le> 100"
    using assms(1) run_wrapper_frozen [OF assms]
    by (cases "installed st") (simp_all add: drawTemplateOnTile_def)
  show "frozenTileCache (store_result cacheKey tileCoords result now st) =
        (if tileRefreshPaused st \<or> isCapturingState st \<or> \<not> smartTileCacheEnabled st then frozenTileCache st
         else if tileKey tileCoords \<in> fst ` set (frozenTileCache st) \<or> length (frozenTileCache st) < 100
           then AList.update (tileKey tileCoords) result (frozenTileCache st)
           else tl (frozenTileCache st) @ [(tileKey tileCoords, result)])"
    by (rule store_result_frozen [OF assms])
  show "length (frozenTileCache (run evs (started gm e v s p))) \<le> 100"
    using reachable_well_formed [of evs gm e v s p] by (simp add: well_formed_def)
qed

theorem frozen_store_capped_witness:
  "length (frozenTileCache full_frozen) \<le> 100 \<and> distinct (map fst (frozenTileCache full_frozen))
   \<and> frozenTileCache (store_result ''key'' (CoordsArray 12 7) (Some (Blob 100 ''image/png'' 1)) 5 full_frozen)
     = tl (frozenTileCache full_frozen) @ [(''0012,0007'', Some (Blob 100 ''image/png'' 1))]
   \<and> length (frozenTileCache (store_result ''key'' (CoordsArray 12 7) (Some (Blob 100 ''image/png'' 1)) 5 full_frozen)) = 100"
proof -
  have l: "length (frozenTileCache full_frozen) = 100"
    by (simp add: full_frozen_def)
  have "inj_on (\<lambda>i. replicate (Suc i) CHR ''k'') (set [0..<100])"
    by (rule inj_onI) simp
  then have d: "distinct (map fst (frozenTileCache full_frozen))"
    by (simp add: full_frozen_def comp_def distinct_map)
  have k: "tileKey (CoordsArray 12 7) = ''0012,0007''"
    by code_simp
  have n: "''0012,0007'' \<notin> fst ` set (frozenTileCache full_frozen)"
    by (auto simp: full_frozen_def)
  have f: "\<not> tileRefreshPaused full_frozen" "\<not> isCapturingState full_frozen" "smartTileCacheEnabled full_frozen"
    by (simp_all add: full_frozen_def module_state_def)
  have "length (frozenTileCache full_frozen) \<le> 100"
    using l by simp
  from frozen_store_capped [OF this d, of "Inl []" "[]" None "CoordsArray 0 0" 0 0 "''key''" "CoordsArray 12 7"
      "Some (Blob 100 ''image/png'' 1)" 5 "[]" False True None NoStats False]
  have "frozenTileCache (store_result ''key'' (CoordsArray 12 7) (Some (Blob 100 ''image/png'' 1)) 5 full_frozen)
     = tl (frozenTileCache full_frozen) @ [(''0012,0007'', Some (Blob 100 ''image/png'' 1))]"
    using n f l by (simp add: k)
  then show ?thesis
    using l d by simp
qed

section \<open>Requests while paused\<close>

text \<open>
  Claim C1. In every state the module reaches in which the pause flag is set, a
  compositing request returns the frozen composite stored under the tile's normalised
  coordinate key when there is one and the unmodified input payload otherwise, and it
  leaves the whole state as it was: in particular the log of invocations of the external
  compositing operation does not grow.
\<close>

theorem paused_requests_replay:
  assumes "tileRefreshPaused (run evs (started gm e v s p))"
  shows "drawTemplateOnTile outcome ts blob coords t1 t2 (run evs (started gm e v s p)) =
     (Inr (case map_of (frozenTileCache (run evs (started gm e v s p))) (tileKey coords) of
             Some frozen \<Rightarrow> frozen
           | None \<Rightarrow> blob),
      run evs (started gm e v s p))
    \<and> compositeCalls (snd (drawTemplateOnTile outcome ts blob coords t1 t2 (run evs (started gm e v s p))))
       = compositeCalls (run evs (started gm e v s p))
    \<and> request_begin ts blob coords t1 (run evs (started gm e v s p)) = run evs (started gm e v s p)"
proof -
  have "installed (run evs (started gm e v s p)) = PausedHandler"
    using reachable_well_formed [of evs gm e v s p] assms by (simp add: well_formed_def)
  then show ?thesis
    by (simp add: drawTemplateOnTile_def paused_handler_def request_begin_def)
qed

lemma paused_scenario_paused: "tileRefreshPaused paused_scenario"
  by code_simp

lemma paused_scenario_frozen: "frozenTileCache paused_scenario = [(''0012,0007'', Some (Blob 120 ''image/png'' 2))]"
  by code_simp

lemma paused_scenario_calls: "compositeCalls paused_scenario = [(Some (Blob 100 ''image/png'' 1), CoordsArray 12 7)]"
  by code_simp


theorem paused_requests_replay_witness:
  "tileRefreshPaused paused_scenario
   \<and> drawTemplateOnTile (Inr None) [] (Some (Blob 100 ''image/png'' 1)) (CoordsArray 12 7) 20 21 paused_scenario
       = (Inr (Some (Blob 120 ''image/png'' 2)), paused_scenario)
   \<and> drawTemplateOnTile (Inr None) [] (Some (Blob 100 ''image/png'' 3)) (CoordsArray 1 1) 20 21 paused_scenario
       = (Inr (Some (Blob 100 ''image/png'' 3)), paused_scenario)
   \<and> compositeCalls paused_scenario = [(Some (Blob 100 ''image/png'' 1), CoordsArray 12 7)]"
proof -
  have h: "tileRefreshPaused (run [Begin [] (Some (Blob 100 ''image/png'' 1)) (CoordsArray 12 7) 10,
          Settle (generateCacheKey (CoordsArray 12 7) [] (Some (Blob 100 ''image/png'' 1))) (CoordsArray 12 7)
            (Inr (Some (Blob 120 ''image/png'' 2))) 11,
          TogglePause]
       (started False True (Some ''1.0'') NoStats False))"
    using paused_scenario_paused by (simp add: paused_scenario_def)
  have k1: "tileKey (CoordsArray 12 7) = ''0012,0007''" and k2: "tileKey (CoordsArray 1 1) = ''0001,0001''"
    by code_simp+
  have i1: "drawTemplateOnTile (Inr None) [] (Some (Blob 100 ''image/png'' 1)) (CoordsArray 12 7) 20 21 paused_scenario
      = (Inr (case map_of (frozenTileCache paused_scenario) (tileKey (CoordsArray 12 7)) of
                Some frozen \<Rightarrow> frozen | None \<Rightarrow> Some (Blob 100 ''image/png'' 1)), paused_scenario)"
    using paused_requests_replay [OF h, of "Inr None" "[]" "Some (Blob 100 ''image/png'' 1)" "CoordsArray 12 7" 20 21]
    unfolding paused_scenario_def [symmetric] by (rule conjunct1)
  have i2: "drawTemplateOnTile (Inr None) [] (Some (Blob 100 ''image/png'' 3)) (CoordsArray 1 1) 20 21 paused_scenario
      = (Inr (case map_of (frozenTileCache paused_scenario) (tileKey (CoordsArray 1 1)) of
                Some frozen \<Rightarrow> frozen | None \<Rightarrow> Some (Blob 100 ''image/png'' 3)), paused_scenario)"
    using paused_requests_replay [OF h, of "Inr None" "[]" "Some (Blob 100 ''image/png'' 3)" "CoordsArray 1 1" 20 21]
    unfolding paused_scenario_def [symmetric] by (rule conjunct1)
  show ?thesis
    using paused_scenario_paused paused_scenario_calls i1 i2 by (simp add: paused_scenario_frozen k1 k2)
qed

section \<open>Failure of the compositing operation\<close>

text \<open>
  Claim C6. When a request of a wrapper reaches the external compositing operation and
  the operation rejects with \<open>err\<close>, the request rejects with the same \<open>err\<close> and the
  state stays the one in which the operation was invoked: resuming with a rejection
  changes no state at all. That state has the LRU store and the frozen store of the
  state before the request, and its ledger too unless the probe had found a cached
  \<^verbatim>\<open>null\<close>.
\<close>

theorem composite_failure_propagates:
  assumes "wrapper_begin probe ts blob coords t1 st = (Awaiting cacheKey, st1)"
  shows "run_wrapper probe (Inl err) ts blob coords t1 t2 st = (Inl err, st1)
    \<and> wrapper_resume cacheKey coords (Inl err) t2 st2 = (Inl err, st2)
    \<and> smartTileCache st1 = smartTileCache st \<and> frozenTileCache st1 = frozenTileCache st
    \<and> (cacheAccessOrder st1 = cacheAccessOrder st \<or> map_of (smartTileCache st) cacheKey = Some None)
    \<and> compositeCalls st1 = compositeCalls st @ [(blob, coords)]
    \<and> ((installed st = InitialWrapper \<and> probe = initial_probe st \<or>
         installed st = ResumedWrapper \<and> probe = resumed_probe st) \<longrightarrow>
        drawTemplateOnTile (Inl err) ts blob coords t1 t2 st = (Inl err, st1))"
proof -
  have s: "st1 = snd (wrapper_begin probe ts blob coords t1 st)"
    by (simp add: assms)
  have r: "run_wrapper probe (Inl err) ts blob coords t1 t2 st = (Inl err, st1)"
    by (simp add: run_wrapper_def assms wrapper_resume_def)
  have l: "cacheAccessOrder st1 = cacheAccessOrder st \<or> map_of (smartTileCache st) cacheKey = Some None"
    using assms
    by (auto simp: wrapper_begin_def getFromSmartCache_def Let_def updateCacheAccess_def
        split: if_splits option.splits)
  have c: "compositeCalls st1 = compositeCalls st @ [(blob, coords)]"
    using assms
    by (auto simp: wrapper_begin_def getFromSmartCache_def Let_def updateCacheAccess_def
        split: if_splits option.splits)
  show ?thesis
    using r l c by (auto simp: s wrapper_resume_def drawTemplateOnTile_def)
qed

theorem composite_failure_propagates_witness:
  "wrapper_begin (resumed_probe fresh_start) [] tile_A (CoordsArray 12 7) 1 fresh_start
     = (Awaiting ''0012,0007__100_image/png'',
        fresh_start\<lparr>cacheMisses := 1, compositeCalls := [(tile_A, CoordsArray 12 7)]\<rparr>)
   \<and> installed fresh_start = ResumedWrapper
   \<and> drawTemplateOnTile (Inl ''TypeError'') [] tile_A (CoordsArray 12 7) 1 2 fresh_start
     = (Inl ''TypeError'', fresh_start\<lparr>cacheMisses := 1, compositeCalls := [(tile_A, CoordsArray 12 7)]\<rparr>)
   \<and> smartTileCache (fresh_start\<lparr>cacheMisses := 1, compositeCalls := [(tile_A, CoordsArray 12 7)]\<rparr>) = []
   \<and> frozenTileCache (fresh_start\<lparr>cacheMisses := 1, compositeCalls := [(tile_A, CoordsArray 12 7)]\<rparr>) = []"
proof -
  have h: "wrapper_begin (resumed_probe fresh_start) [] tile_A (CoordsArray 12 7) 1 fresh_start
     = (Awaiting ''0012,0007__100_image/png'',
        fresh_start\<lparr>cacheMisses := 1, compositeCalls := [(tile_A, CoordsArray 12 7)]\<rparr>)"
    by code_simp
  have i: "installed fresh_start = ResumedWrapper"
    by code_simp
  have e: "smartTileCache fresh_start = []" "frozenTileCache fresh_start = []"
    by code_simp+
  show ?thesis
    using h i e composite_failure_propagates [OF h, of "''TypeError''" 2 fresh_start]
    by (simp add: resumed_probe_def)
qed

section \<open>Persisting the statistics\<close>

lemma hit_begin:
  assumes "installed st = ResumedWrapper" and "smartTileCacheEnabled st"
    and "map_of (smartTileCache st) (generateCacheKey coords ts blob) = Some (Some b)"
  shows "request_begin ts blob coords now st =
     st\<lparr>cacheAccessOrder := AList.update (generateCacheKey coords ts blob) now (cacheAccessOrder st),
        cacheHits := cacheHits st + 1\<rparr>"
  using assms
  by (simp add: request_begin_def wrapper_begin_def resumed_probe_def getFromSmartCache_def
      updateCacheAccess_def Let_def)

lemma hits_run:
  assumes "installed st = ResumedWrapper" and "smartTileCacheEnabled st"
    and "map_of (smartTileCache st) (generateCacheKey coords ts blob) = Some (Some b)"
  shows "installed (run (replicate n (Begin ts blob coords now)) st) = ResumedWrapper
    \<and> smartTileCacheEnabled (run (replicate n (Begin ts blob coords now)) st)
    \<and> smartTileCache (run (replicate n (Begin ts blob coords now)) st) = smartTileCache st
    \<and> cacheHits (run (replicate n (Begin ts blob coords now)) st) = cacheHits st + n
    \<and> cacheMisses (run (replicate n (Begin ts blob coords now)) st) = cacheMisses st
    \<and> settingsWrites (run (replicate n (Begin ts blob coords now)) st) = settingsWrites st
    \<and> tileRefreshPaused (run (replicate n (Begin ts blob coords now)) st) = tileRefreshPaused st
    \<and> isCapturingState (run (replicate n (Begin ts blob coords now)) st) = isCapturingState st"
  using assms
proof (induction n arbitrary: st)
  case 0
  then show ?case by (simp add: run_def)
next
  case (Suc n)
  let ?st1 = "request_begin ts blob coords now st"
  have e: "?st1 = st\<lparr>cacheAccessOrder := AList.update (generateCacheKey coords ts blob) now (cacheAccessOrder st),
        cacheHits := cacheHits st + 1\<rparr>"
    using Suc.prems by (rule hit_begin)
  have "installed ?st1 = ResumedWrapper" "smartTileCacheEnabled ?st1"
    "map_of (smartTileCache ?st1) (generateCacheKey coords ts blob) = Some (Some b)"
    using Suc.prems by (simp_all add: e)
  from Suc.IH [OF this] show ?case
    by (simp add: run_def e)
qed

lemma warm_state_fields:
  "installed warm_state = ResumedWrapper" "smartTileCacheEnabled warm_state"
  "smartTileCache warm_state = [(''0012,0007__100_image/png'', composite_A)]"
  "cacheHits warm_state = 0" "cacheMisses warm_state = 1" "settingsWrites warm_state = []"
  "generateCacheKey (CoordsArray 12 7) [] tile_A = ''0012,0007__100_image/png''"
  "\<not> tileRefreshPaused warm_state" "\<not> isCapturingState warm_state"
  "generateCacheKey (CoordsArray 1 1) [] tile_A = ''0001,0001__100_image/png''"
  by code_simp+

lemma fifty_scenario_fields:
  "installed fifty_scenario = ResumedWrapper" "smartTileCacheEnabled fifty_scenario"
  "smartTileCache fifty_scenario = [(''0012,0007__100_image/png'', composite_A)]"
  "cacheHits fifty_scenario = 48" "cacheMisses fifty_scenario = 1" "settingsWrites fifty_scenario = []"
  "\<not> tileRefreshPaused fifty_scenario" "\<not> isCapturingState fifty_scenario"
proof -
  have f: "fifty_scenario = run (replicate 48 (Begin [] tile_A (CoordsArray 12 7) 3)) warm_state"
    by (simp add: fifty_scenario_def warm_state_def run_def)
  have m: "map_of (smartTileCache warm_state) (generateCacheKey (CoordsArray 12 7) [] tile_A)
      = Some (Some (Blob 120 ''image/png'' 8))"
    by (simp add: warm_state_fields composite_A_def)
  note h = hits_run [OF warm_state_fields(1,2) m, of 48 3, folded f]
  show "installed fifty_scenario = ResumedWrapper" "smartTileCacheEnabled fifty_scenario"
    "smartTileCache fifty_scenario = [(''0012,0007__100_image/png'', composite_A)]"
    "cacheHits fifty_scenario = 48" "cacheMisses fifty_scenario = 1" "settingsWrites fifty_scenario = []"
    "\<not> tileRefreshPaused fifty_scenario" "\<not> isCapturingState fifty_scenario"
    using h by (simp_all add: warm_state_fields)
qed

text \<open>
  Claim C9. The statistics are to be persisted whenever hits + misses is divisible by
  50, after every 50th access whether it was a hit or a miss, and as zeros whenever the
  cache is cleared. The code counts every access in \<^verbatim>\<open>getFromSmartCache\<close> but tests
  the count only in \<^verbatim>\<open>storeInSmartCache\<close>, under the comment
  \<^verbatim>\<open>Save cache statistics periodically\<close>, and a cache hit returns before any store. So the
  code misses the claim: after one miss and 48 hits on tile (12, 7) the 50th access is a
  hit; the request returns the cached composite, the counters read 49 hits and 1 miss,
  and nothing has been written to the settings stores.
\<close>

theorem fiftieth_hit_not_persisted:
  "fst fiftieth_access = Inr composite_A
   \<and> cacheHits (snd fiftieth_access) = 49 \<and> cacheMisses (snd fiftieth_access) = 1
   \<and> (cacheHits (snd fiftieth_access) + cacheMisses (snd fiftieth_access)) mod 50 = 0
   \<and> settingsWrites (snd fiftieth_access) = []"
  by (simp add: fiftieth_access_def drawTemplateOnTile_def run_wrapper_def wrapper_begin_def
      resumed_probe_def getFromSmartCache_def updateCacheAccess_def Let_def
      fifty_scenario_fields warm_state_fields(7) composite_A_def)

lemma miss_begin:
  assumes "installed st = ResumedWrapper" and "smartTileCacheEnabled st"
    and "map_of (smartTileCache st) (generateCacheKey coords ts blob) = None"
  shows "request_begin ts blob coords now st =
     st\<lparr>cacheMisses := cacheMisses st + 1, compositeCalls := compositeCalls st @ [(blob, coords)]\<rparr>"
  using assms
  by (simp add: request_begin_def wrapper_begin_def resumed_probe_def getFromSmartCache_def Let_def)

lemma settle_writes:
  assumes "\<not> tileRefreshPaused st" and "\<not> isCapturingState st" and "smartTileCacheEnabled st"
  shows "settingsWrites (snd (wrapper_resume key coords (Inr r) now st)) =
     (if (cacheHits st + cacheMisses st) mod 50 = 0
      then settingsWrites st @ [(LocalStorage, CACHE_STATS_KEY, StatsJSON (cacheHits st) (cacheMisses st))]
      else settingsWrites st)"
  using assms
  by (simp add: wrapper_resume_def store_result_lru storeInSmartCache_def Let_def
      saveCacheStatistics_def updateCacheAccess_def)

lemma settle_counters [simp]:
  "cacheHits (snd (wrapper_resume key coords outcome now st)) = cacheHits st"
  "cacheMisses (snd (wrapper_resume key coords outcome now st)) = cacheMisses st"
  "tileRefreshPaused (snd (wrapper_resume key coords outcome now st)) = tileRefreshPaused st"
  "isCapturingState (snd (wrapper_resume key coords outcome now st)) = isCapturingState st"
  "smartTileCacheEnabled (snd (wrapper_resume key coords outcome now st)) = smartTileCacheEnabled st"
  by (cases outcome; simp add: wrapper_resume_def)+

lemma other_keys:
  "generateCacheKey (CoordsArray 2 2) [] tile_A = ''0002,0002__100_image/png''"
  by code_simp

text \<open>
  A miss is lost the same way when two requests are in flight. From the same 49
  accesses, a request for tile (1, 1) misses (the 50th access) and awaits its composite;
  a request for tile (2, 2) misses meanwhile; each store then finds a count of 51, and
  again nothing is written.
\<close>

theorem fiftieth_miss_in_flight_not_persisted:
  "cacheHits first_in_flight = 48 \<and> cacheMisses first_in_flight = 2
   \<and> (cacheHits first_in_flight + cacheMisses first_in_flight) mod 50 = 0
   \<and> settingsWrites first_in_flight = []
   \<and> cacheHits two_in_flight = 48 \<and> cacheMisses two_in_flight = 3
   \<and> settingsWrites two_in_flight = []"
proof -
  have m1: "map_of (smartTileCache fifty_scenario) (generateCacheKey (CoordsArray 1 1) [] tile_A) = None"
    by (simp add: fifty_scenario_fields warm_state_fields)
  have f: "first_in_flight = fifty_scenario\<lparr>cacheMisses := cacheMisses fifty_scenario + 1,
      compositeCalls := compositeCalls fifty_scenario @ [(tile_A, CoordsArray 1 1)]\<rparr>"
    using miss_begin [OF fifty_scenario_fields(1,2) m1, of 4]
    by (simp add: first_in_flight_def run_def)
  have m2: "map_of (smartTileCache first_in_flight) (generateCacheKey (CoordsArray 2 2) [] tile_A) = None"
    by (simp add: f fifty_scenario_fields other_keys)
  have i: "installed first_in_flight = ResumedWrapper" "smartTileCacheEnabled first_in_flight"
    by (simp_all add: f fifty_scenario_fields)
  define s2 where "s2 = request_begin [] tile_A (CoordsArray 2 2) 5 first_in_flight"
  have s2: "s2 = first_in_flight\<lparr>cacheMisses := cacheMisses first_in_flight + 1,
      compositeCalls := compositeCalls first_in_flight @ [(tile_A, CoordsArray 2 2)]\<rparr>"
    unfolding s2_def by (rule miss_begin [OF i m2])
  have c2: "cacheHits s2 = 48" "cacheMisses s2 = 3" "settingsWrites s2 = []"
    "\<not> tileRefreshPaused s2" "\<not> isCapturingState s2" "smartTileCacheEnabled s2"
    by (simp_all add: s2 f fifty_scenario_fields)
  define s3 where "s3 = step (Settle (generateCacheKey (CoordsArray 1 1) [] tile_A) (CoordsArray 1 1) (Inr composite_A) 6) s2"
  have c3: "cacheHits s3 = 48" "cacheMisses s3 = 3" "settingsWrites s3 = []"
    "\<not> tileRefreshPaused s3" "\<not> isCapturingState s3" "smartTileCacheEnabled s3"
    unfolding s3_def using c2 by (simp_all add: settle_writes)
  define s4 where "s4 = step (Settle (generateCacheKey (CoordsArray 2 2) [] tile_A) (CoordsArray 2 2) (Inr composite_A) 7) s3"
  have c4: "cacheHits s4 = 48" "cacheMisses s4 = 3" "settingsWrites s4 = []"
    unfolding s4_def using c3 by (simp_all add: settle_writes)
  have "two_in_flight = s4"
    by (simp add: two_in_flight_def run_def s4_def s3_def s2_def)
  then show ?thesis
    using c4 by (simp add: f fifty_scenario_fields)
qed

text \<open>
  Where the statistics are written. A \<^verbatim>\<open>get\<close> never writes them; a \<^verbatim>\<open>put\<close> on the
  enabled cache writes them exactly when it finds hits + misses divisible by 50 at the
  time of the \<^verbatim>\<open>put\<close>; clearing the cache resets both counters and writes zeros. For a
  request answered by the running wrapper that runs with no other request in between
  and whose compositing succeeds, they are written when the probe did not return a
  cached composite and the count is then divisible by 50, and otherwise (in particular
  on every cache hit) nothing is written.
\<close>

theorem statistics_persistence:
  "settingsWrites (snd (getFromSmartCache key now st)) = settingsWrites st
   \<and> (smartTileCacheEnabled st \<longrightarrow>
        settingsWrites (storeInSmartCache key v now st) =
          (if (cacheHits st + cacheMisses st) mod 50 = 0
           then settingsWrites st @ [(LocalStorage, CACHE_STATS_KEY, StatsJSON (cacheHits st) (cacheMisses st))]
           else settingsWrites st))
   \<and> settingsWrites (clearSmartTileCache st) =
        settingsWrites st @ [(LocalStorage, CACHE_STATS_KEY, StatsJSON 0 0)]
   \<and> cacheHits (clearSmartTileCache st) = 0 \<and> cacheMisses (clearSmartTileCache st) = 0
   \<and> (installed st = ResumedWrapper \<and> \<not> tileRefreshPaused st \<and> \<not> isCapturingState st
        \<and> smartTileCacheEnabled st \<longrightarrow>
        settingsWrites (snd (drawTemplateOnTile (Inr result) ts blob coords t1 t2 st)) =
          (if map_of (smartTileCache st) (generateCacheKey coords ts blob) \<in> {None, Some None}
              \<and> (cacheHits (snd (drawTemplateOnTile (Inr result) ts blob coords t1 t2 st))
                  + cacheMisses (snd (drawTemplateOnTile (Inr result) ts blob coords t1 t2 st))) mod 50 = 0
           then settingsWrites st @
              [(LocalStorage, CACHE_STATS_KEY,
                StatsJSON (cacheHits (snd (drawTemplateOnTile (Inr result) ts blob coords t1 t2 st)))
                  (cacheMisses (snd (drawTemplateOnTile (Inr result) ts blob coords t1 t2 st))))]
           else settingsWrites st))"
proof (intro conjI impI)
  show "settingsWrites (snd (getFromSmartCache key now st)) = settingsWrites st"
    by simp
  show "settingsWrites (storeInSmartCache key v now st) =
          (if (cacheHits st + cacheMisses st) mod 50 = 0
           then settingsWrites st @ [(LocalStorage, CACHE_STATS_KEY, StatsJSON (cacheHits st) (cacheMisses st))]
           else settingsWrites st)" if "smartTileCacheEnabled st"
    using that by (simp add: storeInSmartCache_def Let_def saveCacheStatistics_def updateCacheAccess_def)
  show "settingsWrites (clearSmartTileCache st) =
        settingsWrites st @ [(LocalStorage, CACHE_STATS_KEY, StatsJSON 0 0)]"
    "cacheHits (clearSmartTileCache st) = 0" "cacheMisses (clearSmartTileCache st) = 0"
    by simp_all
  assume a: "installed st = ResumedWrapper \<and> \<not> tileRefreshPaused st \<and> \<not> isCapturingState st
        \<and> smartTileCacheEnabled st"
  let ?r = "snd (drawTemplateOnTile (Inr result) ts blob coords t1 t2 st)"
  show "settingsWrites ?r =
          (if map_of (smartTileCache st) (generateCacheKey coords ts blob) \<in> {None, Some None}
              \<and> (cacheHits ?r + cacheMisses ?r) mod 50 = 0
           then settingsWrites st @ [(LocalStorage, CACHE_STATS_KEY, StatsJSON (cacheHits ?r) (cacheMisses ?r))]
           else settingsWrites st)"
    using a
    by (auto simp: drawTemplateOnTile_def run_wrapper_def wrapper_begin_def wrapper_resume_def
        resumed_probe_def getFromSmartCache_def updateCacheAccess_def Let_def store_result_lru
        storeInSmartCache_def saveCacheStatistics_def
        split: option.splits)
qed

theorem statistics_persistence_witness:
  "smartTileCacheEnabled fifty_scenario
   \<and> settingsWrites (snd (getFromSmartCache ''0012,0007__100_image/png'' 4 fifty_scenario)) = []
   \<and> cacheHits (snd (getFromSmartCache ''0012,0007__100_image/png'' 4 fifty_scenario)) = 49
   \<and> settingsWrites (storeInSmartCache ''other'' None 5 (snd (getFromSmartCache ''0012,0007__100_image/png'' 4 fifty_scenario)))
       = [(LocalStorage, CACHE_STATS_KEY, StatsJSON 49 1)]
   \<and> installed fifty_scenario = ResumedWrapper \<and> \<not> tileRefreshPaused fifty_scenario
   \<and> \<not> isCapturingState fifty_scenario
   \<and> settingsWrites (snd (drawTemplateOnTile (Inr composite_A) [] tile_A (CoordsArray 1 1) 4 5 fifty_scenario))
       = [(LocalStorage, CACHE_STATS_KEY, StatsJSON 48 2)]"
proof -
  let ?st = "snd (getFromSmartCache ''0012,0007__100_image/png'' 4 fifty_scenario)"
  let ?r = "snd (drawTemplateOnTile (Inr composite_A) [] tile_A (CoordsArray 1 1) 4 5 fifty_scenario)"
  have h: "cacheHits ?st = 49" "cacheMisses ?st = 1" "smartTileCacheEnabled ?st"
    by (simp_all add: getFromSmartCache_def updateCacheAccess_def Let_def fifty_scenario_fields composite_A_def)
  have m: "map_of (smartTileCache fifty_scenario) (generateCacheKey (CoordsArray 1 1) [] tile_A) = None"
    by (simp add: fifty_scenario_fields warm_state_fields)
  have c: "cacheHits ?r = 48" "cacheMisses ?r = 2"
    using m
    by (simp_all add: drawTemplateOnTile_def run_wrapper_def wrapper_begin_def wrapper_resume_def
        resumed_probe_def getFromSmartCache_def Let_def fifty_scenario_fields)
  show ?thesis
    using statistics_persistence [where key = "''0012,0007__100_image/png''" and now = 4 and st = fifty_scenario
        and result = composite_A and ts = "[]" and blob = tile_A and coords = "CoordsArray 1 1" and ?t1.0 = 4 and ?t2.0 = 5]
      statistics_persistence [where key = "''other''" and now = 5 and st = ?st and v = None]
    by (simp add: h c fifty_scenario_fields warm_state_fields)
qed

section \<open>Toggling the cache\<close>

text \<open>
  Claim C10. Toggling the cache off empties the LRU store and the ledger, zeroes both
  counters and persists the zeroed statistics after the new flag, in every state; the
  invalidation that saving the flag schedules then finds the cache off and does nothing.
  Toggling it on leaves store, ledger and counters as they were and persists only the
  flag; the scheduled invalidation does nothing when the store is empty.
\<close>

theorem toggle_cache_resets:
  "(smartTileCacheEnabled st \<longrightarrow>
      fst (toggleSmartTileCache st) = False
      \<and> \<not> smartTileCacheEnabled (snd (toggleSmartTileCache st))
      \<and> smartTileCache (snd (toggleSmartTileCache st)) = []
      \<and> cacheAccessOrder (snd (toggleSmartTileCache st)) = []
      \<and> cacheHits (snd (toggleSmartTileCache st)) = 0
      \<and> cacheMisses (snd (toggleSmartTileCache st)) = 0
      \<and> settingsWrites (snd (toggleSmartTileCache st)) =
          settingsWrites st
          @ (if gmAvailable st then [(TamperMonkey, ''bmSmartTileCache'', BoolJSON False)] else [])
          @ [(LocalStorage, ''bmSmartTileCache'', BoolJSON False),
             (LocalStorage, CACHE_STATS_KEY, StatsJSON 0 0)]
      \<and> invalidateCacheForSettingsChange (snd (toggleSmartTileCache st)) = snd (toggleSmartTileCache st))
   \<and> (\<not> smartTileCacheEnabled st \<longrightarrow>
      fst (toggleSmartTileCache st) = True
      \<and> smartTileCacheEnabled (snd (toggleSmartTileCache st))
      \<and> smartTileCache (snd (toggleSmartTileCache st)) = smartTileCache st
      \<and> cacheAccessOrder (snd (toggleSmartTileCache st)) = cacheAccessOrder st
      \<and> cacheHits (snd (toggleSmartTileCache st)) = cacheHits st
      \<and> cacheMisses (snd (toggleSmartTileCache st)) = cacheMisses st
      \<and> settingsWrites (snd (toggleSmartTileCache st)) =
          settingsWrites st
          @ (if gmAvailable st then [(TamperMonkey, ''bmSmartTileCache'', BoolJSON True)] else [])
          @ [(LocalStorage, ''bmSmartTileCache'', BoolJSON True)]
      \<and> (smartTileCache st = [] \<longrightarrow>
          invalidateCacheForSettingsChange (snd (toggleSmartTileCache st)) = snd (toggleSmartTileCache st)))"
  by (simp add: toggleSmartTileCache_def saveSmartTileCacheEnabled_def save_setting_def
      clearSmartTileCache_def saveCacheStatistics_def invalidateCacheForSettingsChange_def Let_def)

theorem toggle_cache_resets_witness:
  "smartTileCacheEnabled warm_state
   \<and> smartTileCache warm_state = [(''0012,0007__100_image/png'', composite_A)]
   \<and> cacheMisses warm_state = 1
   \<and> smartTileCache (snd (toggleSmartTileCache warm_state)) = []
   \<and> cacheAccessOrder (snd (toggleSmartTileCache warm_state)) = []
   \<and> cacheHits (snd (toggleSmartTileCache warm_state)) = 0
   \<and> cacheMisses (snd (toggleSmartTileCache warm_state)) = 0
   \<and> settingsWrites (snd (toggleSmartTileCache warm_state)) =
        [(LocalStorage, ''bmSmartTileCache'', BoolJSON False), (LocalStorage, CACHE_STATS_KEY, StatsJSON 0 0)]
   \<and> \<not> smartTileCacheEnabled disabled_start
   \<and> smartTileCache disabled_start = []
   \<and> smartTileCacheEnabled (snd (toggleSmartTileCache disabled_start))
   \<and> smartTileCache (snd (toggleSmartTileCache disabled_start)) = []
   \<and> cacheHits (snd (toggleSmartTileCache disabled_start)) = 50
   \<and> cacheMisses (snd (toggleSmartTileCache disabled_start)) = 0
   \<and> settingsWrites (snd (toggleSmartTileCache disabled_start)) =
        [(TamperMonkey, ''bmSmartTileCache'', BoolJSON True), (LocalStorage, ''bmSmartTileCache'', BoolJSON True)]
   \<and> invalidateCacheForSettingsChange (snd (toggleSmartTileCache disabled_start))
        = snd (toggleSmartTileCache disabled_start)"
proof -
  have d: "\<not> smartTileCacheEnabled disabled_start" "smartTileCache disabled_start = []"
    "cacheAccessOrder disabled_start = []" "cacheHits disabled_start = 50" "cacheMisses disabled_start = 0"
    "settingsWrites disabled_start = []" "gmAvailable disabled_start"
    by code_simp+
  have g: "\<not> gmAvailable warm_state"
    by code_simp
  show ?thesis
    using toggle_cache_resets [of warm_state] toggle_cache_resets [of disabled_start]
    by (simp add: warm_state_fields d g)
qed

section \<open>Keys and enabled templates\<close>

lemma of_char_digit: "d < 10 \<Longrightarrow> of_char (digit_char d) = (48 + d :: nat)"
  by (simp add: digit_char_def)

lemma decode_nat_toString: "decode_nat (nat_toString n) = n"
proof (induction n rule: nat_toString.induct)
  case (1 n)
  show ?case
  proof (cases "n < 10")
    case True
    then show ?thesis
      by (subst nat_toString.simps) (simp add: decode_nat_def of_char_digit)
  next
    case False
    then have "decode_nat (nat_toString (n div 10)) = n div 10"
      using 1 by simp
    then show ?thesis
      using False
      by (subst nat_toString.simps) (simp add: decode_nat_def of_char_digit)
  qed
qed

lemma nat_toString_inj: "nat_toString m = nat_toString n \<Longrightarrow> m = n"
  by (metis decode_nat_toString)

lemma digit_char_neq:
  assumes "d < 10"
  shows "digit_char d \<noteq> CHR ''_''" and "digit_char d \<noteq> CHR ''-''"
proof -
  have e: "of_char (digit_char d) = (48 + d :: nat)"
    using assms by (rule of_char_digit)
  show "digit_char d \<noteq> CHR ''_''"
  proof
    assume "digit_char d = CHR ''_''"
    then have "(48 + d :: nat) = of_char CHR ''_''" using e by simp
    then show False using assms by simp
  qed
  show "digit_char d \<noteq> CHR ''-''"
  proof
    assume "digit_char d = CHR ''-''"
    then have "(48 + d :: nat) = of_char CHR ''-''" using e by simp
    then show False using assms by simp
  qed
qed

lemma nat_toString_chars: "CHR ''_'' \<notin> set (nat_toString n) \<and> CHR ''-'' \<notin> set (nat_toString n)"
proof (induction n rule: nat_toString.induct)
  case (1 n)
  show ?case
  proof (cases "n < 10")
    case True
    then show ?thesis
      using digit_char_neq [of n] by (subst (1 2) nat_toString.simps) auto
  next
    case False
    then have "n mod 10 < 10" by simp
    then show ?thesis
      using False 1 digit_char_neq [of "n mod 10"] by (subst (1 2) nat_toString.simps) auto
  qed
qed

lemma nat_toString_nonempty: "nat_toString n \<noteq> []"
  by (subst nat_toString.simps) simp

lemma hd_nat_toString: "hd (nat_toString n) \<noteq> CHR ''-''"
  using nat_toString_chars [of n] nat_toString_nonempty [of n]
  by (cases "nat_toString n") auto

lemma int_toString_inj: "int_toString i = int_toString j \<Longrightarrow> i = j"
proof -
  assume e: "int_toString i = int_toString j"
  have neg: "i < 0 \<longleftrightarrow> j < 0"
  proof -
    have "hd (int_toString k) = CHR ''-'' \<longleftrightarrow> k < 0" for k
      using hd_nat_toString [of "nat k"] by (simp add: int_toString_def)
    then show ?thesis using e by metis
  qed
  show "i = j"
  proof (cases "i < 0")
    case True
    then have "nat_toString (nat (- i)) = nat_toString (nat (- j))"
      using e neg by (simp add: int_toString_def)
    then have "nat (- i) = nat (- j)" by (rule nat_toString_inj)
    then show ?thesis using True neg by simp
  next
    case False
    then have "nat_toString (nat i) = nat_toString (nat j)"
      using e neg by (simp add: int_toString_def)
    then have "nat i = nat j" by (rule nat_toString_inj)
    then show ?thesis using False neg by simp
  qed
qed

lemma int_toString_no_underscore: "CHR ''_'' \<notin> set (int_toString i)"
  using nat_toString_chars by (simp add: int_toString_def)

lemma suffix_id_append:
  assumes "CHR ''_'' \<in> set s"
  shows "suffix_id (p @ s) = suffix_id s"
proof -
  have "CHR ''_'' \<in> set (rev s)" using assms by simp
  then have "takeWhile (\<lambda>c. c \<noteq> CHR ''_'') (rev s @ rev p) = takeWhile (\<lambda>c. c \<noteq> CHR ''_'') (rev s)"
    by (intro takeWhile_append1) auto
  then show ?thesis by (simp add: suffix_id_def)
qed

lemma suffix_id_label: "suffix_id (template_label t) = int_toString (effective_sortID t)"
proof -
  have "rev (template_label t) = rev (int_toString (effective_sortID t)) @ CHR ''_'' # rev (effective_name t)"
    by (simp add: template_label_def)
  moreover have "\<forall>c\<in>set (rev (int_toString (effective_sortID t))). c \<noteq> CHR ''_''"
    using int_toString_no_underscore by auto
  ultimately have "takeWhile (\<lambda>c. c \<noteq> CHR ''_'') (rev (template_label t)) = rev (int_toString (effective_sortID t))"
    by (simp add: takeWhile_tail)
  then show ?thesis by (simp add: suffix_id_def)
qed

lemma label_has_underscore: "CHR ''_'' \<in> set (template_label t)"
  by (simp add: template_label_def)

lemma label_sortID: "template_label t = template_label t' \<Longrightarrow> effective_sortID t = effective_sortID t'"
  using suffix_id_label [of t] suffix_id_label [of t'] int_toString_inj by metis

lemma join_snoc: "join sep (xs @ [x]) = (if xs = [] then x else join sep xs @ sep @ x)"
  by (induction sep xs rule: join.induct) auto

lemma suffix_id_join:
  assumes "CHR ''_'' \<in> set x"
  shows "suffix_id (join sep (xs @ [x])) = suffix_id x"
  using suffix_id_append [OF assms, of "join sep xs @ sep"] by (simp add: join_snoc)

lemma join_inj:
  assumes und: "\<And>s. s \<in> L \<Longrightarrow> CHR ''_'' \<in> set s" and inj: "inj_on suffix_id L"
  shows "set xs \<subseteq> L \<Longrightarrow> set ys \<subseteq> L \<Longrightarrow> join ''|'' xs = join ''|'' ys \<Longrightarrow> xs = ys"
proof (induction xs arbitrary: ys rule: rev_induct)
  case Nil
  show ?case
  proof (cases ys rule: rev_cases)
    case Nil
    then show ?thesis by simp
  next
    case (snoc ys' y)
    then have "CHR ''_'' \<in> set y" using Nil.prems(2) und by simp
    then have "join ''|'' (ys' @ [y]) \<noteq> []"
      by (auto simp: join_snoc)
    then show ?thesis using Nil.prems(3) snoc by simp
  qed
next
  case (snoc x xs)
  have ux: "CHR ''_'' \<in> set x" and xL: "x \<in> L"
    using snoc.prems(1) und by simp_all
  show ?case
  proof (cases ys rule: rev_cases)
    case Nil
    have "join ''|'' (xs @ [x]) \<noteq> []"
      using ux by (auto simp: join_snoc)
    then show ?thesis using snoc.prems(3) Nil by simp
  next
    case (snoc ys' y)
    have uy: "CHR ''_'' \<in> set y" and yL: "y \<in> L"
      using snoc.prems(2) und snoc by simp_all
    have "suffix_id x = suffix_id y"
      using snoc.prems(3) suffix_id_join [OF ux, of "''|''" xs] suffix_id_join [OF uy, of "''|''" ys']
      by (simp add: snoc)
    then have xy: "x = y"
      using inj xL yL by (simp add: inj_on_def)
    have "join ''|'' (xs @ [y]) = join ''|'' (ys' @ [y])"
      using snoc.prems(3) by (simp only: snoc xy)
    then have e: "(if xs = [] then y else join ''|'' xs @ ''|'' @ y) = (if ys' = [] then y else join ''|'' ys' @ ''|'' @ y)"
      by (simp only: join_snoc)
    have c1: "y \<noteq> zs @ ''|'' @ y" for zs
    proof
      assume "y = zs @ ''|'' @ y"
      then have "length y = length (zs @ ''|'' @ y)" by (rule arg_cong)
      then show False by simp
    qed
    have "xs = ys'"
    proof (cases "xs = []")
      case True
      show ?thesis
      proof (cases "ys' = []")
        case True
        then show ?thesis using \<open>xs = []\<close> by simp
      next
        case False
        then show ?thesis using e True c1 [of "join ''|'' ys'"] by simp
      qed
    next
      case False
      have n: "ys' \<noteq> []"
      proof
        assume "ys' = []"
        then show False using e False c1 [of "join ''|'' xs"] by simp
      qed
      then have "join ''|'' xs @ ''|'' @ y = join ''|'' ys' @ ''|'' @ y"
        using e False by simp
      then have "join ''|'' xs = join ''|'' ys'"
        by simp
      moreover have "set xs \<subseteq> L" "set ys' \<subseteq> L"
        using snoc.prems(1,2) snoc by simp_all
      ultimately show ?thesis by (intro snoc.IH)
    qed
    then show ?thesis by (simp add: snoc xy)
  qed
qed

lemma key_cancel:
  "generateCacheKey c ts1 b = generateCacheKey c ts2 b \<longleftrightarrow> templateHash ts1 = templateHash ts2"
  by (simp add: generateCacheKey_def)

lemma sort_mset_eq: "mset xs = mset ys \<Longrightarrow> sort xs = sort ys"
  for xs ys :: "string list"
  by (metis mset_sort properties_for_sort sorted_sort)

lemma hash_permutation: "mset ts1 = mset ts2 \<Longrightarrow> templateHash ts1 = templateHash ts2"
proof -
  assume m: "mset ts1 = mset ts2"
  then have "mset (map template_label (filter is_enabled ts1)) = mset (map template_label (filter is_enabled ts2))"
    by (metis mset_filter mset_map)
  then have "sort (map template_label (filter is_enabled ts1)) = sort (map template_label (filter is_enabled ts2))"
    by (rule sort_mset_eq)
  moreover have "ts1 = [] \<longleftrightarrow> ts2 = []"
    using m by (metis mset_zero_iff)
  ultimately show ?thesis by (simp add: templateHash_def)
qed

lemma label_in_enabled:
  assumes "distinct (map template_label ts)" and "t \<in> set ts"
  shows "template_label t \<in> set (map template_label (filter is_enabled ts)) \<longleftrightarrow> is_enabled t"
proof
  assume "template_label t \<in> set (map template_label (filter is_enabled ts))"
  then obtain u where u: "u \<in> set ts" "is_enabled u" "template_label u = template_label t"
    by auto
  have "inj_on template_label (set ts)"
    using assms(1) by (simp add: distinct_map)
  then have "u = t" using u(1,3) assms(2) by (simp add: inj_on_def)
  then show "is_enabled t" using u(2) by simp
next
  assume "is_enabled t"
  then show "template_label t \<in> set (map template_label (filter is_enabled ts))"
    using assms(2) by auto
qed

lemma labels_distinct:
  assumes "distinct (map effective_sortID ts)"
  shows "distinct (map template_label ts)" and "inj_on suffix_id (set (map template_label ts))"
proof -
  have d: "distinct ts" and i: "inj_on effective_sortID (set ts)"
    using assms by (simp_all add: distinct_map)
  have "inj_on template_label (set ts)"
  proof (rule inj_onI)
    fix t u assume "t \<in> set ts" "u \<in> set ts" "template_label t = template_label u"
    then show "t = u" using i label_sortID by (metis inj_onD)
  qed
  then show "distinct (map template_label ts)"
    using d by (simp add: distinct_map)
  show "inj_on suffix_id (set (map template_label ts))"
  proof (rule inj_onI)
    fix a b assume "a \<in> set (map template_label ts)" "b \<in> set (map template_label ts)"
      and e: "suffix_id a = suffix_id b"
    then obtain t u where t: "t \<in> set ts" "a = template_label t" and u: "u \<in> set ts" "b = template_label u"
      by auto
    have "int_toString (effective_sortID t) = int_toString (effective_sortID u)"
      using e by (simp add: t u suffix_id_label)
    then have "effective_sortID t = effective_sortID u" by (rule int_toString_inj)
    then have "t = u" using i t(1) u(1) by (simp add: inj_on_def)
    then show "a = b" by (simp add: t u)
  qed
qed

lemma hash_enabled_differs:
  assumes names: "map name ts1 = map name ts2" and ids: "map sortID ts1 = map sortID ts2"
    and dist: "distinct (map effective_sortID ts1)"
    and diff: "map is_enabled ts1 \<noteq> map is_enabled ts2"
  shows "templateHash ts1 \<noteq> templateHash ts2"
proof
  assume h: "templateHash ts1 = templateHash ts2"
  have len: "length ts1 = length ts2"
    using names by (metis length_map)
  have same: "template_label (ts1 ! i) = template_label (ts2 ! i)
      \<and> effective_sortID (ts1 ! i) = effective_sortID (ts2 ! i)" if "i < length ts1" for i
  proof -
    have "name (ts1 ! i) = name (ts2 ! i)"
      using names that len by (metis nth_map)
    moreover have "sortID (ts1 ! i) = sortID (ts2 ! i)"
      using ids that len by (metis nth_map)
    ultimately show ?thesis
      by (simp add: template_label_def effective_name_def effective_sortID_def)
  qed
  have labs: "map template_label ts1 = map template_label ts2"
    using same len by (intro nth_equalityI) simp_all
  have "map effective_sortID ts1 = map effective_sortID ts2"
    using same len by (intro nth_equalityI) simp_all
  then have dist2: "distinct (map effective_sortID ts2)"
    using dist by simp
  have ne: "ts1 \<noteq> []" "ts2 \<noteq> []"
    using diff len by auto
  let ?L = "set (map template_label ts1)"
  let ?e1 = "map template_label (filter is_enabled ts1)"
  let ?e2 = "map template_label (filter is_enabled ts2)"
  have j: "join ''|'' (sort ?e1) = join ''|'' (sort ?e2)"
    using h ne by (simp add: templateHash_def)
  have s1: "set (sort ?e1) \<subseteq> ?L" by auto
  have s2: "set (sort ?e2) \<subseteq> ?L" unfolding labs by auto
  have und: "CHR ''_'' \<in> set s" if "s \<in> ?L" for s
    using that label_has_underscore by auto
  have "sort ?e1 = sort ?e2"
    using und labels_distinct(2) [OF dist] s1 s2 j by (rule join_inj)
  then have "set (sort ?e1) = set (sort ?e2)"
    by simp
  then have sets: "set ?e1 = set ?e2"
    by simp
  have "is_enabled (ts1 ! i) = is_enabled (ts2 ! i)" if "i < length ts1" for i
  proof -
    have "is_enabled (ts1 ! i) \<longleftrightarrow> template_label (ts1 ! i) \<in> set ?e1"
      using label_in_enabled [OF labels_distinct(1) [OF dist], of "ts1 ! i"] that by simp
    also have "\<dots> \<longleftrightarrow> template_label (ts2 ! i) \<in> set ?e2"
      using same [OF that] sets by simp
    also have "\<dots> \<longleftrightarrow> is_enabled (ts2 ! i)"
      using label_in_enabled [OF labels_distinct(1) [OF dist2], of "ts2 ! i"] that len by simp
    finally show ?thesis .
  qed
  then have "map is_enabled ts1 = map is_enabled ts2"
    using len by (intro nth_equalityI) simp_all
  then show False using diff by simp
qed

text \<open>
  Against claim C2 as stated: a list holding the same template twice (same name, same
  sort identifier) gives one key whether the first or the second copy is the enabled
  one, although the two calls differ in which templates are enabled.
\<close>

theorem duplicate_templates_collide:
  "map name [template_A True, template_A False] = map name [template_A False, template_A True]
   \<and> map sortID [template_A True, template_A False] = map sortID [template_A False, template_A True]
   \<and> map is_enabled [template_A True, template_A False] \<noteq> map is_enabled [template_A False, template_A True]
   \<and> generateCacheKey (CoordsArray 12 7) [template_A True, template_A False] (Some (Blob 100 ''image/png'' 1))
     = generateCacheKey (CoordsArray 12 7) [template_A False, template_A True] (Some (Blob 100 ''image/png'' 1))"
  by code_simp

text \<open>
  Claim C2, amended. \<^const>\<open>generateCacheKey\<close> reads nothing but its three arguments, so
  equal arguments give equal keys; the same templates in another order give the same
  key; and two calls that differ only in which templates are enabled give different
  keys provided the sort identifiers of the list (a missing one counting as 0) are
  pairwise distinct.
\<close>

theorem key_follows_enabled_templates:
  "(mset ts1 = mset ts2 \<longrightarrow> generateCacheKey c ts1 b = generateCacheKey c ts2 b)
   \<and> (map name ts1 = map name ts2 \<and> map sortID ts1 = map sortID ts2
        \<and> distinct (map effective_sortID ts1) \<and> map is_enabled ts1 \<noteq> map is_enabled ts2
      \<longrightarrow> generateCacheKey c ts1 b \<noteq> generateCacheKey c ts2 b)"
  using hash_permutation [of ts1 ts2] hash_enabled_differs [of ts1 ts2]
  by (auto simp: key_cancel)

theorem key_follows_enabled_templates_witness:
  "mset [template_A True, template_B False] = mset [template_B False, template_A True]
   \<and> generateCacheKey (CoordsArray 12 7) [template_A True, template_B False] (Some (Blob 100 ''image/png'' 1))
     = generateCacheKey (CoordsArray 12 7) [template_B False, template_A True] (Some (Blob 100 ''image/png'' 1))
   \<and> map name [template_A True, template_B False] = map name [template_A True, template_B True]
   \<and> map sortID [template_A True, template_B False] = map sortID [template_A True, template_B True]
   \<and> distinct (map effective_sortID [template_A True, template_B False])
   \<and> map is_enabled [template_A True, template_B False] \<noteq> map is_enabled [template_A True, template_B True]
   \<and> generateCacheKey (CoordsArray 12 7) [template_A True, template_B False] (Some (Blob 100 ''image/png'' 1))
     \<noteq> generateCacheKey (CoordsArray 12 7) [template_A True, template_B True] (Some (Blob 100 ''image/png'' 1))"
proof -
  have m: "mset [template_A True, template_B False] = mset [template_B False, template_A True]"
    by simp
  have h: "map name [template_A True, template_B False] = map name [template_A True, template_B True]"
    "map sortID [template_A True, template_B False] = map sortID [template_A True, template_B True]"
    "distinct (map effective_sortID [template_A True, template_B False])"
    "map is_enabled [template_A True, template_B False] \<noteq> map is_enabled [template_A True, template_B True]"
    by (simp_all add: template_A_def template_B_def effective_sortID_def is_enabled_def)
  show ?thesis
    using m h
      key_follows_enabled_templates [of "[template_A True, template_B False]" "[template_B False, template_A True]"
        "CoordsArray 12 7" "Some (Blob 100 ''image/png'' 1)"]
      key_follows_enabled_templates [of "[template_A True, template_B False]" "[template_A True, template_B True]"
        "CoordsArray 12 7" "Some (Blob 100 ''image/png'' 1)"]
    by blast
qed

end
